theory Spec2Isabelle
  imports Complex_Main "HOL-Library.Product_Lexorder"
begin

section \<open>Values, errors and rows\<close>

text \<open>
  A cell of a data frame. \<open>PNone\<close> is the one null of pandas (\<open>None\<close> and \<open>NaN\<close> alike).
  Floats are modelled by exact reals: rounding is not part of this development.
\<close>

datatype pyval = PNone | PBool bool | PInt int | PReal real | PStr string

datatype error = KeyError string | ZeroDivisionError

text \<open>The numeric reading of a cell (Python compares \<open>1 == 1.0 == True\<close>).\<close>

fun num_of :: "pyval \<Rightarrow> real option" where
  "num_of (PInt i) = Some (of_int i)"
| "num_of (PReal r) = Some r"
| "num_of (PBool b) = Some (if b then 1 else 0)"
| "num_of PNone = None"
| "num_of (PStr s) = None"

text \<open>Element-wise \<open>==\<close> of two columns: a null on either side compares \<open>False\<close>.\<close>

definition pd_eq :: "pyval \<Rightarrow> pyval \<Rightarrow> bool" where
  "pd_eq a b =
     (if a = PNone \<or> b = PNone then False
      else (case (num_of a, num_of b) of
              (Some x, Some y) \<Rightarrow> x = y
            | (None, None) \<Rightarrow> a = b
            | _ \<Rightarrow> False))"

text \<open>
  A row of \<open>sprints_list\<close>, with the columns \<open>detect_sprints\<close> writes, and a row of
  \<open>sprints_df\<close>, which has the column \<open>sprint_id\<close> too.
\<close>

record sprint_candidate =
  sp_match_id :: pyval
  sp_player_id :: int
  sp_frame_start :: int
  sp_frame_end :: int
  sp_mid_frame :: int
  sp_duration_s :: real
  sp_distance_m :: real
  sp_avg_sprint_speed_kmh :: real
  sp_max_sprint_speed_kmh :: real

record sprint = sprint_candidate +
  sp_sprint_id :: nat

text \<open>
  A row of \<open>phases_df\<close>. The three columns of the join are typed (a missing frame number,
  \<open>NaN\<close>, is \<open>None\<close>); every other column is looked up by its name in \<open>ph_cols\<close>, where an
  absent column is \<open>None\<close>.
\<close>

record phase_interval =
  ph_match_id :: pyval
  ph_frame_start :: "int option"
  ph_frame_end :: "int option"
  ph_cols :: "string \<rightharpoonup> pyval"

text \<open>\<open>row[key]\<close> raises \<open>KeyError\<close> on an absent column; \<open>row.get(key, default)\<close> does not.\<close>

definition getitem :: "(string \<rightharpoonup> pyval) \<Rightarrow> string \<Rightarrow> error + pyval" where
  "getitem row k = (case row k of None \<Rightarrow> Inl (KeyError k) | Some v \<Rightarrow> Inr v)"

definition get_default :: "(string \<rightharpoonup> pyval) \<Rightarrow> string \<Rightarrow> pyval \<Rightarrow> pyval" where
  "get_default row k d = (case row k of None \<Rightarrow> d | Some v \<Rightarrow> v)"

section \<open>Tracking data (\<open>explode_player_tracking\<close>, \<open>calculate_distances\<close>)\<close>

text \<open>
  One entry of a frame's \<open>player_data\<close> and one row of \<open>tracking_df\<close>, with the columns
  that sprint detection reads. \<open>tr_player_data\<close> is \<open>None\<close> when the cell is not a list;
  an element of the list is \<open>None\<close> when it is not a dictionary. A missing \<open>player_id\<close>,
  \<open>x\<close> or \<open>y\<close> is \<open>None\<close>.
\<close>

record player_entry =
  pe_player_id :: "int option"
  pe_x :: "real option"
  pe_y :: "real option"

record tracking_row =
  tr_frame :: int
  tr_player_data :: "player_entry option list option"

record player_frame =
  pf_frame :: int
  pf_player_id :: "int option"
  pf_x :: "real option"
  pf_y :: "real option"

definition explode_row :: "tracking_row \<Rightarrow> player_frame list" where
  "explode_row row =
     (case tr_player_data row of
        None \<Rightarrow> []
      | Some players \<Rightarrow>
          concat (map (\<lambda>player. case player of
                         None \<Rightarrow> []
                       | Some pl \<Rightarrow> [\<lparr> pf_frame = tr_frame row, pf_player_id = pe_player_id pl,
                                      pf_x = pe_x pl, pf_y = pe_y pl \<rparr>]) players))"

definition explode_player_tracking :: "tracking_row list \<Rightarrow> player_frame list" where
  "explode_player_tracking tracking_df = concat (map explode_row tracking_df)"

text \<open>\<open>Series.diff\<close>: missing at the first row and wherever one of the two values is.\<close>

definition sub_opt :: "real option \<Rightarrow> real option \<Rightarrow> real option" where
  "sub_opt a b = (case (a, b) of (Some x, Some y) \<Rightarrow> Some (x - y) | _ \<Rightarrow> None)"

fun diff_from :: "real option \<Rightarrow> real option list \<Rightarrow> real option list" where
  "diff_from prev [] = []"
| "diff_from prev (x # xs) = sub_opt x prev # diff_from x xs"

definition diff :: "real option list \<Rightarrow> real option list" where
  "diff xs = diff_from None xs"

definition euclid :: "real \<Rightarrow> real \<Rightarrow> real" where
  "euclid dx dy = sqrt (dx\<^sup>2 + dy\<^sup>2)"

definition euclid_opt :: "real option \<Rightarrow> real option \<Rightarrow> real option" where
  "euclid_opt dx dy = (case (dx, dy) of (Some a, Some b) \<Rightarrow> Some (euclid a b) | _ \<Rightarrow> None)"

text \<open>
  The rows are sorted by frame first. The sort is modelled as a stable one: when the
  frames of the player are distinct, every sort gives this order.
\<close>

definition calculate_distances :: "player_frame list \<Rightarrow> real option list" where
  "calculate_distances player_tracking =
     (let sorted_df = sort_key pf_frame player_tracking;
          dx = diff (map pf_x sorted_df);
          dy = diff (map pf_y sorted_df)
      in map2 euclid_opt dx dy)"

section \<open>Signal conditioning\<close>

definition mask_teleport :: "real option \<Rightarrow> real option" where
  "mask_teleport d = (case d of None \<Rightarrow> None | Some v \<Rightarrow> if v > 1 then None else Some v)"

definition to_kmh :: "int \<Rightarrow> real option \<Rightarrow> real option" where
  "to_kmh fps d = map_option (\<lambda>v. v * of_int fps * 36 / 10) d"

definition clip_upper :: "real \<Rightarrow> real option \<Rightarrow> real option" where
  "clip_upper cap s = map_option (\<lambda>v. min v cap) s"

definition dropna :: "real option list \<Rightarrow> real list" where
  "dropna xs = concat (map (\<lambda>x. case x of None \<Rightarrow> [] | Some v \<Rightarrow> [v]) xs)"

text \<open>
  The window of \<open>rolling(window=w, center=True)\<close> at row \<open>i\<close>: the rows
  \<open>i + 1 + (w - 1) div 2 - w\<close> (inclusive) to \<open>i + 1 + (w - 1) div 2\<close> (exclusive) that
  exist.
\<close>

definition window_at :: "nat \<Rightarrow> 'a list \<Rightarrow> nat \<Rightarrow> 'a list" where
  "window_at w xs i = (let e = i + 1 + (w - 1) div 2 in drop (e - w) (take e xs))"

definition median :: "real list \<Rightarrow> real" where
  "median vs =
     (let s = sort vs; n = length s
      in if odd n then s ! (n div 2) else (s ! (n div 2 - 1) + s ! (n div 2)) / 2)"

definition mean :: "real list \<Rightarrow> real" where
  "mean vs = sum_list vs / real (length vs)"

text \<open>\<open>min_periods = 1\<close>: a window with no value present gives a missing value.\<close>

definition rolling :: "nat \<Rightarrow> (real list \<Rightarrow> real) \<Rightarrow> real option list \<Rightarrow> real option list" where
  "rolling w stat xs =
     map (\<lambda>i. let vs = dropna (window_at w xs i)
               in if length vs < 1 then None else Some (stat vs))
         [0..<length xs]"

definition smooth_window :: nat where
  "smooth_window = 11"

definition speeds_smooth :: "int \<Rightarrow> real option list \<Rightarrow> real option list" where
  "speeds_smooth fps distances =
     (let distances = map mask_teleport distances;
          speeds_kmh = map (to_kmh fps) distances;
          speeds_kmh = map (clip_upper 32) speeds_kmh;
          speeds_smooth = rolling smooth_window median speeds_kmh
      in rolling 7 mean speeds_smooth)"

section \<open>Segmentation\<close>

record pdf_row =
  pr_frame :: int
  speed_smooth :: "real option"
  is_sprinting :: bool
  sprint_group :: nat

definition fillna :: "real \<Rightarrow> real option \<Rightarrow> real" where
  "fillna d v = (case v of None \<Rightarrow> d | Some x \<Rightarrow> x)"

text \<open>\<open>flags != flags.shift()\<close>: the first row compares with a missing value, which differs.\<close>

fun changes :: "bool option \<Rightarrow> bool list \<Rightarrow> bool list" where
  "changes prev [] = []"
| "changes prev (b # bs) = (Some b \<noteq> prev) # changes (Some b) bs"

fun cumsum :: "nat \<Rightarrow> bool list \<Rightarrow> nat list" where
  "cumsum acc [] = []"
| "cumsum acc (c # cs) = (acc + (if c then 1 else 0)) # cumsum (acc + (if c then 1 else 0)) cs"

definition annotate :: "real \<Rightarrow> int list \<Rightarrow> real option list \<Rightarrow> pdf_row list" where
  "annotate threshold_kmh frames smooth =
     (let flags = map (\<lambda>v. fillna 0 v \<ge> threshold_kmh) smooth;
          groups = cumsum 0 (changes None flags)
      in map (\<lambda>(f, v, b, g). \<lparr> pr_frame = f, speed_smooth = v, is_sprinting = b,
                                sprint_group = g \<rparr>)
             (zip frames (zip smooth (zip flags groups))))"

text \<open>\<open>groupby\<close>: one group for each key, in ascending order of the keys.\<close>

definition groupby :: "('a \<Rightarrow> nat) \<Rightarrow> 'a list \<Rightarrow> 'a list list" where
  "groupby key rows =
     map (\<lambda>k. filter (\<lambda>r. key r = k) rows) (sort (remdups (map key rows)))"

definition sprint_groups :: "pdf_row list \<Rightarrow> pdf_row list list" where
  "sprint_groups pdf = groupby sprint_group (filter is_sprinting pdf)"

text \<open>\<open>int(x)\<close> of a float truncates towards zero.\<close>

definition py_int :: "real \<Rightarrow> int" where
  "py_int x = (if x \<ge> 0 then \<lfloor>x\<rfloor> else \<lceil>x\<rceil>)"

text \<open>\<open>Series.quantile(q)\<close>, linear interpolation between the two nearest ranks.\<close>

definition quantile :: "real \<Rightarrow> real list \<Rightarrow> real" where
  "quantile q vs =
     (let s = sort vs;
          h = q * real (length s - 1);
          lo = nat \<lfloor>h\<rfloor>;
          hi = min (lo + 1) (length s - 1)
      in s ! lo + (h - real lo) * (s ! hi - s ! lo))"

text \<open>
  The body of the loop over the groups, up to the summary of the run: \<open>Inr None\<close> is a
  \<open>continue\<close>.
\<close>

definition candidate_of_group ::
  "pyval \<Rightarrow> int \<Rightarrow> int \<Rightarrow> pdf_row list \<Rightarrow> error + sprint_candidate option" where
  "candidate_of_group match_id player_id fps sprint =
     (if length sprint < 6 then Inr None
      else
        let frame_start = Min (set (map pr_frame sprint));
            frame_end = Max (set (map pr_frame sprint));
            mid_frame = py_int (of_int (frame_start + frame_end) / 2)
        in if fps = 0 then Inl ZeroDivisionError
           else
             let duration_s = of_int (frame_end - frame_start + 1) / of_int fps;
                 sprint_speeds = dropna (map speed_smooth sprint)
             in if sprint_speeds = [] \<or> length sprint_speeds < 4 then Inr None
                else
                  let avg_speed_kmh = mean sprint_speeds;
                      max_speed_kmh = quantile (9 / 10) sprint_speeds;
                      distance_m = (avg_speed_kmh / (36 / 10)) * duration_s
                  in Inr (Some \<lparr> sp_match_id = match_id, sp_player_id = player_id,
                                  sp_frame_start = frame_start, sp_frame_end = frame_end,
                                  sp_mid_frame = mid_frame, sp_duration_s = duration_s,
                                  sp_distance_m = distance_m,
                                  sp_avg_sprint_speed_kmh = avg_speed_kmh,
                                  sp_max_sprint_speed_kmh = max_speed_kmh \<rparr>))"

section \<open>Validation\<close>

text \<open>The three checks, each a \<open>continue\<close>.\<close>

definition rejected :: "sprint_candidate \<Rightarrow> bool" where
  "rejected c =
     ((sp_avg_sprint_speed_kmh c < 245 / 10 \<or> sp_avg_sprint_speed_kmh c > 29)
      \<or> (sp_max_sprint_speed_kmh c < 26 \<or> sp_max_sprint_speed_kmh c > 33)
      \<or> sp_distance_m c < 7)"

definition group_body ::
  "pyval \<Rightarrow> int \<Rightarrow> int \<Rightarrow> pdf_row list \<Rightarrow> sprint_candidate list
   \<Rightarrow> error + sprint_candidate list" where
  "group_body match_id player_id fps sprint sprints_list =
     (case candidate_of_group match_id player_id fps sprint of
        Inl e \<Rightarrow> Inl e
      | Inr None \<Rightarrow> Inr sprints_list
      | Inr (Some c) \<Rightarrow> if rejected c then Inr sprints_list else Inr (sprints_list @ [c]))"

fun group_loop ::
  "pyval \<Rightarrow> int \<Rightarrow> int \<Rightarrow> pdf_row list list \<Rightarrow> sprint_candidate list
   \<Rightarrow> error + sprint_candidate list" where
  "group_loop match_id player_id fps [] sprints_list = Inr sprints_list"
| "group_loop match_id player_id fps (sprint # rest) sprints_list =
     (case group_body match_id player_id fps sprint sprints_list of
        Inl e \<Rightarrow> Inl e
      | Inr sprints_list' \<Rightarrow> group_loop match_id player_id fps rest sprints_list')"

section \<open>The loop over the players (\<open>detect_sprints\<close>)\<close>

text \<open>\<open>Series.unique\<close>: the values in the order of their first occurrence.\<close>

fun unique :: "'a list \<Rightarrow> 'a list" where
  "unique [] = []"
| "unique (x # xs) = x # unique (filter (\<lambda>y. y \<noteq> x) xs)"

text \<open>The key of \<open>sort_values(["player_id", "frame"])\<close>: a missing \<open>player_id\<close> sorts last.\<close>

definition sort_values_key :: "player_frame \<Rightarrow> bool \<times> int \<times> int" where
  "sort_values_key r =
     (pf_player_id r = None, (case pf_player_id r of None \<Rightarrow> 0 | Some p \<Rightarrow> p), pf_frame r)"

text \<open>
  The body of the loop over the players. The player's rows are already in frame order, so
  the sort in \<open>calculate_distances\<close> leaves them in place and the assignment of
  \<open>speed_smooth\<close> pairs the rows and the speeds by position.
\<close>

definition player_body ::
  "pyval \<Rightarrow> int \<Rightarrow> real \<Rightarrow> player_frame list \<Rightarrow> int \<Rightarrow> sprint_candidate list
   \<Rightarrow> error + sprint_candidate list" where
  "player_body match_id fps threshold_kmh player_frames player_id sprints_list =
     (let pdf = filter (\<lambda>r. pf_player_id r = Some player_id) player_frames
      in if length pdf < smooth_window then Inr sprints_list
         else
           let distances = calculate_distances pdf;
               smooth = speeds_smooth fps distances;
               pdf' = annotate threshold_kmh (map pf_frame pdf) smooth
           in group_loop match_id player_id fps (sprint_groups pdf') sprints_list)"

fun player_loop ::
  "pyval \<Rightarrow> int \<Rightarrow> real \<Rightarrow> player_frame list \<Rightarrow> int list \<Rightarrow> sprint_candidate list
   \<Rightarrow> error + sprint_candidate list" where
  "player_loop match_id fps threshold_kmh player_frames [] sprints_list = Inr sprints_list"
| "player_loop match_id fps threshold_kmh player_frames (player_id # rest) sprints_list =
     (case player_body match_id fps threshold_kmh player_frames player_id sprints_list of
        Inl e \<Rightarrow> Inl e
      | Inr sprints_list' \<Rightarrow>
          player_loop match_id fps threshold_kmh player_frames rest sprints_list')"

definition assign_sprint_id :: "sprint_candidate list \<Rightarrow> sprint list" where
  "assign_sprint_id sprints_list =
     map2 (\<lambda>c i. sprint_candidate.extend c (sprint.fields i)) sprints_list
          [0..<length sprints_list]"

text \<open>
  A frame built from no row has no column: \<open>sort_values\<close> on it raises \<open>KeyError\<close>.
\<close>

definition detect_sprints ::
  "tracking_row list \<Rightarrow> pyval \<Rightarrow> int \<Rightarrow> real \<Rightarrow> error + sprint list" where
  "detect_sprints tracking_df match_id fps threshold_kmh =
     (let player_frames = explode_player_tracking tracking_df
      in if player_frames = [] then Inl (KeyError ''player_id'')
         else
           let player_frames = sort_key sort_values_key player_frames;
               players =
                 unique (concat (map (\<lambda>r. case pf_player_id r of None \<Rightarrow> [] | Some p \<Rightarrow> [p])
                                     player_frames))
           in (case player_loop match_id fps threshold_kmh player_frames players [] of
                 Inl e \<Rightarrow> Inl e
               | Inr sprints_list \<Rightarrow> Inr (assign_sprint_id sprints_list)))"

definition TRACKING_FPS :: int where
  "TRACKING_FPS = 10"

definition SPRINT_THRESHOLD_KMH :: real where
  "SPRINT_THRESHOLD_KMH = 245 / 10"

section \<open>Context enrichment (\<open>enrich_sprints_with_phases\<close>)\<close>

text \<open>The dictionary built for one sprint: the sprint's own columns and the seven joined ones.\<close>

record sprint_dict =
  sd_sprint :: sprint
  team_in_possession_phase_type :: pyval
  team_out_of_possession_phase_type :: pyval
  team_in_possession_id :: pyval
  possession_lead_to_shot :: pyval
  possession_lead_to_goal :: pyval
  third_end :: pyval
  channel_end :: pyval

record enriched_sprint = sprint_dict +
  is_high_value_phase :: bool

text \<open>
  The boolean mask
  \<^verbatim>\<open>(match_id == m) & (frame_start <= mid_frame) & (frame_end >= mid_frame)\<close>;
  a comparison with a missing frame number is \<open>False\<close>.
\<close>

definition contains_mid :: "sprint \<Rightarrow> phase_interval \<Rightarrow> bool" where
  "contains_mid s p =
     (pd_eq (ph_match_id p) (sp_match_id s)
      \<and> (case ph_frame_start p of None \<Rightarrow> False | Some a \<Rightarrow> a \<le> sp_mid_frame s)
      \<and> (case ph_frame_end p of None \<Rightarrow> False | Some b \<Rightarrow> b \<ge> sp_mid_frame s))"

definition phase_match :: "sprint \<Rightarrow> phase_interval list \<Rightarrow> phase_interval list" where
  "phase_match s phases_df = filter (contains_mid s) phases_df"

definition no_phase :: "sprint \<Rightarrow> sprint_dict" where
  "no_phase s =
     \<lparr> sd_sprint = s,
       team_in_possession_phase_type = PNone,
       team_out_of_possession_phase_type = PNone,
       team_in_possession_id = PNone,
       possession_lead_to_shot = PBool False,
       possession_lead_to_goal = PBool False,
       third_end = PNone,
       channel_end = PNone \<rparr>"

definition with_phase :: "sprint \<Rightarrow> phase_interval \<Rightarrow> error + sprint_dict" where
  "with_phase s phase =
     (case getitem (ph_cols phase) ''team_in_possession_phase_type'' of
        Inl e \<Rightarrow> Inl e
      | Inr tip \<Rightarrow>
     (case getitem (ph_cols phase) ''team_out_of_possession_phase_type'' of
        Inl e \<Rightarrow> Inl e
      | Inr toop \<Rightarrow>
     (case getitem (ph_cols phase) ''team_in_possession_id'' of
        Inl e \<Rightarrow> Inl e
      | Inr tid \<Rightarrow>
        Inr \<lparr> sd_sprint = s,
              team_in_possession_phase_type = tip,
              team_out_of_possession_phase_type = toop,
              team_in_possession_id = tid,
              possession_lead_to_shot =
                get_default (ph_cols phase) ''team_possession_lead_to_shot'' (PBool False),
              possession_lead_to_goal =
                get_default (ph_cols phase) ''team_possession_lead_to_goal'' (PBool False),
              third_end = get_default (ph_cols phase) ''third_end'' PNone,
              channel_end = get_default (ph_cols phase) ''channel_end'' PNone \<rparr>)))"

text \<open>The body of the loop over \<open>sprints_df.iterrows()\<close>: \<open>iloc[0]\<close> is the first row of the mask.\<close>

definition enrich_row :: "phase_interval list \<Rightarrow> sprint \<Rightarrow> error + sprint_dict" where
  "enrich_row phases_df s =
     (case phase_match s phases_df of
        [] \<Rightarrow> Inr (no_phase s)
      | phase # _ \<Rightarrow> with_phase s phase)"

text \<open>The loop: an exception in one iteration ends the call.\<close>

fun enrich_rows :: "phase_interval list \<Rightarrow> sprint list \<Rightarrow> error + sprint_dict list" where
  "enrich_rows phases_df [] = Inr []"
| "enrich_rows phases_df (s # ss) =
     (case enrich_row phases_df s of
        Inl e \<Rightarrow> Inl e
      | Inr d \<Rightarrow>
          (case enrich_rows phases_df ss of
             Inl e \<Rightarrow> Inl e
           | Inr ds \<Rightarrow> Inr (d # ds)))"

definition high_value_phases :: "string set" where
  "high_value_phases = {''create'', ''finish'', ''quick_break'', ''transition''}"

text \<open>\<open>Series.isin\<close> on one cell.\<close>

definition isin :: "pyval \<Rightarrow> string set \<Rightarrow> bool" where
  "isin v S = (case v of PStr s \<Rightarrow> s \<in> S | _ \<Rightarrow> False)"

definition add_high_value :: "sprint_dict \<Rightarrow> enriched_sprint" where
  "add_high_value d =
     sprint_dict.extend d
       (enriched_sprint.fields (isin (team_in_possession_phase_type d) high_value_phases))"

text \<open>
  \<open>pd.DataFrame([])\<close> has no columns, so reading the column
  \<open>team_in_possession_phase_type\<close> of the frame built from no sprint raises \<open>KeyError\<close>.
\<close>

definition enrich_sprints_with_phases ::
  "sprint list \<Rightarrow> phase_interval list \<Rightarrow> error + enriched_sprint list" where
  "enrich_sprints_with_phases sprints_df phases_df =
     (case enrich_rows phases_df sprints_df of
        Inl e \<Rightarrow> Inl e
      | Inr enriched_sprints \<Rightarrow>
          if enriched_sprints = [] then Inl (KeyError ''team_in_possession_phase_type'')
          else Inr (map add_high_value enriched_sprints))"

section \<open>Attacking and defensive flags (\<open>add_sprint_context_flags\<close>)\<close>

text \<open>The frame after the join with the player metadata: every row has a \<open>team_id\<close>.\<close>

record team_sprint = enriched_sprint +
  team_id :: pyval

record flagged_sprint = team_sprint +
  is_attacking_sprint :: bool
  is_defensive_sprint :: bool
  in_attacking_third :: bool

definition flag_row :: "team_sprint \<Rightarrow> flagged_sprint" where
  "flag_row r =
     (let attacking = pd_eq (team_id r) (team_in_possession_id r) in
      team_sprint.extend r
        (flagged_sprint.fields attacking (\<not> attacking)
           (pd_eq (third_end r) (PStr ''attacking_third''))))"

definition add_sprint_context_flags :: "team_sprint list \<Rightarrow> flagged_sprint list" where
  "add_sprint_context_flags sprints_df = map flag_row sprints_df"

text \<open>The metadata join, outside this repository's code: it adds the column \<open>team_id\<close>.\<close>

definition join_team_id :: "enriched_sprint \<Rightarrow> pyval \<Rightarrow> team_sprint" where
  "join_team_id e t = enriched_sprint.extend e (team_sprint.fields t)"

section \<open>The signal conditioner in the words of the specification\<close>

text \<open>The four steps of section 4.2 of the specification, written from its words.\<close>

text \<open>Step 1: a distance that exceeds the teleport threshold is set to missing.\<close>

definition spec_teleport_rejection :: "real \<Rightarrow> real option \<Rightarrow> real option" where
  "spec_teleport_rejection threshold d =
     (case d of None \<Rightarrow> None | Some v \<Rightarrow> if v > threshold then None else Some v)"

text \<open>Step 2: \<open>distance * fps * 3.6\<close>, clipped to the cap (a ceiling only).\<close>

definition spec_hard_cap :: "int \<Rightarrow> real \<Rightarrow> real option \<Rightarrow> real option" where
  "spec_hard_cap fps cap d =
     (case d of None \<Rightarrow> None | Some v \<Rightarrow> Some (min (v * of_int fps * (36 / 10)) cap))"

text \<open>
  Steps 3 and 4: the statistic of the values present among the frames at most \<open>h\<close> away
  from frame \<open>i\<close> (fewer than \<open>2 * h + 1\<close> of them at the ends of the sequence); missing
  when none is present.
\<close>

definition spec_centered_window :: "nat \<Rightarrow> 'a list \<Rightarrow> nat \<Rightarrow> 'a list" where
  "spec_centered_window h xs i =
     map (\<lambda>j. xs ! j) (filter (\<lambda>j. i \<le> j + h \<and> j \<le> i + h) [0..<length xs])"

definition spec_centered_rolling ::
  "nat \<Rightarrow> (real list \<Rightarrow> real) \<Rightarrow> real option list \<Rightarrow> real option list" where
  "spec_centered_rolling h stat xs =
     map (\<lambda>i. case [v. Some v \<leftarrow> spec_centered_window h xs i] of
                 [] \<Rightarrow> None
               | v # vs \<Rightarrow> Some (stat (v # vs)))
         [0..<length xs]"

text \<open>
  The median of the specification: midway between the least value that has at least half
  of the values at or below it and the greatest value that has at least half of the
  values at or above it (one and the same value when the number of values is odd).
\<close>

definition spec_median :: "real list \<Rightarrow> real" where
  "spec_median vs =
     (let n = length vs;
          lower = Min (set (filter (\<lambda>v. n \<le> 2 * length (filter (\<lambda>u. u \<le> v) vs)) vs));
          upper = Max (set (filter (\<lambda>v. n \<le> 2 * length (filter (\<lambda>u. v \<le> u) vs)) vs))
      in (lower + upper) / 2)"

text \<open>The mean of the specification: the sum of the values over their number.\<close>

definition spec_mean :: "real list \<Rightarrow> real" where
  "spec_mean vs = (\<Sum>i<length vs. vs ! i) / real (length vs)"

definition spec_speed_smooth :: "int \<Rightarrow> real option list \<Rightarrow> real option list" where
  "spec_speed_smooth fps distances =
     spec_centered_rolling 3 spec_mean
       (spec_centered_rolling 5 spec_median
          (map (\<lambda>d. spec_hard_cap fps 32 (spec_teleport_rejection 1 d)) distances))"

section \<open>Notions of the statements\<close>

text \<open>
  The candidates of one player's track: the summaries of the runs that the loop over the
  groups does not skip, before the validation.
\<close>

definition candidates_of_track ::
  "pyval \<Rightarrow> int \<Rightarrow> int \<Rightarrow> real \<Rightarrow> int list \<Rightarrow> real option list \<Rightarrow> sprint_candidate list" where
  "candidates_of_track match_id player_id fps threshold_kmh frames smooth =
     concat (map (\<lambda>run. case candidate_of_group match_id player_id fps run of
                           Inr (Some c) \<Rightarrow> [c]
                         | _ \<Rightarrow> [])
                 (sprint_groups (annotate threshold_kmh frames smooth)))"

text \<open>The rows of a player's frame, from its four columns.\<close>

definition rows_of :: "int list \<Rightarrow> real option list \<Rightarrow> bool list \<Rightarrow> nat list \<Rightarrow> pdf_row list" where
  "rows_of fs vs bs gs =
     map (\<lambda>(f, v, b, g). \<lparr> pr_frame = f, speed_smooth = v, is_sprinting = b,
                               sprint_group = g \<rparr>)
         (zip fs (zip vs (zip bs gs)))"

definition sprint_flags :: "real \<Rightarrow> real option list \<Rightarrow> bool list" where
  "sprint_flags threshold_kmh smooth = map (\<lambda>v. fillna 0 v \<ge> threshold_kmh) smooth"

text \<open>The sprints that the loop over the groups appends, and the ones of one player.\<close>

definition accepted_of_groups ::
  "pyval \<Rightarrow> int \<Rightarrow> int \<Rightarrow> pdf_row list list \<Rightarrow> sprint_candidate list" where
  "accepted_of_groups match_id player_id fps groups =
     concat (map (\<lambda>run. case candidate_of_group match_id player_id fps run of
                           Inr (Some c) \<Rightarrow> if rejected c then [] else [c]
                         | _ \<Rightarrow> [])
                 groups)"

definition player_pdf :: "player_frame list \<Rightarrow> int \<Rightarrow> player_frame list" where
  "player_pdf player_frames player_id =
     filter (\<lambda>r. pf_player_id r = Some player_id) player_frames"

definition player_rows :: "int \<Rightarrow> real \<Rightarrow> player_frame list \<Rightarrow> pdf_row list" where
  "player_rows fps threshold_kmh pdf =
     annotate threshold_kmh (map pf_frame pdf) (speeds_smooth fps (calculate_distances pdf))"

definition sprints_of_player ::
  "pyval \<Rightarrow> int \<Rightarrow> real \<Rightarrow> player_frame list \<Rightarrow> int \<Rightarrow> sprint_candidate list" where
  "sprints_of_player match_id fps threshold_kmh player_frames player_id =
     (if length (player_pdf player_frames player_id) < smooth_window then []
      else accepted_of_groups match_id player_id fps
             (sprint_groups (player_rows fps threshold_kmh (player_pdf player_frames player_id))))"

text \<open>The order of the output: by player, and by first frame within a player.\<close>

definition player_then_frame :: "('a sprint_candidate_scheme) \<Rightarrow> ('a sprint_candidate_scheme) \<Rightarrow> bool" where
  "player_then_frame a b =
     (sp_player_id a < sp_player_id b
      \<or> (sp_player_id a = sp_player_id b \<and> sp_frame_start a \<le> sp_frame_start b))"

definition player_then_frame_strict ::
  "('a sprint_candidate_scheme) \<Rightarrow> ('a sprint_candidate_scheme) \<Rightarrow> bool" where
  "player_then_frame_strict a b =
     (sp_player_id a < sp_player_id b
      \<or> (sp_player_id a = sp_player_id b \<and> sp_frame_start a < sp_frame_start b))"

text \<open>No player has two rows of the same frame.\<close>

definition frames_distinct :: "player_frame list \<Rightarrow> bool" where
  "frames_distinct player_frames =
     (\<forall>p. distinct (map pf_frame (player_pdf player_frames p)))"

text \<open>The three columns that \<open>enrich_sprints_with_phases\<close> reads with \<open>phase[...]\<close>.\<close>

definition has_phase_columns :: "phase_interval \<Rightarrow> bool" where
  "has_phase_columns p =
     (ph_cols p ''team_in_possession_phase_type'' \<noteq> None
      \<and> ph_cols p ''team_out_of_possession_phase_type'' \<noteq> None
      \<and> ph_cols p ''team_in_possession_id'' \<noteq> None)"

text \<open>Both rows have a frame number as \<open>frame_start\<close>, and the first one's is not above the
  second one's.\<close>

definition frame_start_le :: "phase_interval \<Rightarrow> phase_interval \<Rightarrow> bool" where
  "frame_start_le p q =
     (case (ph_frame_start p, ph_frame_start q) of (Some a, Some b) \<Rightarrow> a \<le> b | _ \<Rightarrow> False)"

section \<open>Example data\<close>

definition ex_sprint :: sprint where
  "ex_sprint =
     \<lparr> sp_match_id = PInt 1, sp_player_id = 7, sp_frame_start = 4, sp_frame_end = 16,
       sp_mid_frame = 10, sp_duration_s = 13 / 10, sp_distance_m = 39 / 4,
       sp_avg_sprint_speed_kmh = 27, sp_max_sprint_speed_kmh = 28, sp_sprint_id = 0 \<rparr>"

definition ex_phase :: "int \<Rightarrow> int \<Rightarrow> (string \<times> pyval) list \<Rightarrow> phase_interval" where
  "ex_phase a b cols =
     \<lparr> ph_match_id = PInt 1, ph_frame_start = Some a, ph_frame_end = Some b,
       ph_cols = map_of cols \<rparr>"

definition ex_cols :: "int \<Rightarrow> (string \<times> pyval) list" where
  "ex_cols t =
     [(''team_in_possession_phase_type'', PStr ''create''),
      (''team_out_of_possession_phase_type'', PStr ''low_block''),
      (''team_in_possession_id'', PInt t)]"

text \<open>The columns of the shot and goal outcome as the phase table names them, and as the
  data model of the specification names them.\<close>

definition ex_outcome_cols :: "(string \<times> pyval) list" where
  "ex_outcome_cols =
     [(''team_possession_lead_to_shot'', PBool True),
      (''team_possession_lead_to_goal'', PBool False),
      (''third_end'', PStr ''attacking_third''),
      (''channel_end'', PStr ''center'')]"

definition ex_spec_cols :: "(string \<times> pyval) list" where
  "ex_spec_cols =
     [(''possession_lead_to_shot'', PBool True),
      (''possession_lead_to_goal'', PBool True)]"

definition ex_run :: "int \<Rightarrow> real list \<Rightarrow> pdf_row list" where
  "ex_run f vs =
     map (\<lambda>(k, v). \<lparr> pr_frame = f + int k, speed_smooth = Some v, is_sprinting = True,
                       sprint_group = 2 \<rparr>)
         (zip [0..<length vs] vs)"

text \<open>
  A smoothed curve held at 24.5 km/h for \<open>n\<close> frames, and at 0 or missing on the frames
  before and after.
\<close>

definition ex_curve :: "nat \<Rightarrow> real option list" where
  "ex_curve n = [Some 0, None, Some 0] @ replicate n (Some (245 / 10)) @ [Some 0, Some 0]"

text \<open>
  Two players, listed as 9 then 4 in every frame, who move 0.75 m per frame along the \<open>x\<close>
  axis for 11 frames; the player frame after the sort; the distances of either player;
  the sprint detected for either player.
\<close>

definition ex_entry :: "int \<Rightarrow> real \<Rightarrow> player_entry option" where
  "ex_entry p x = Some \<lparr> pe_player_id = Some p, pe_x = Some x, pe_y = Some 0 \<rparr>"

definition ex_tracking :: "tracking_row list" where
  "ex_tracking =
     map (\<lambda>k. \<lparr> tr_frame = int k,
                 tr_player_data = Some [ex_entry 9 (real k * 3 / 4), ex_entry 4 (real k * 3 / 4)] \<rparr>)
         [0..<11]"

definition ex_player_frames :: "int \<Rightarrow> player_frame list" where
  "ex_player_frames p =
     map (\<lambda>k. \<lparr> pf_frame = int k, pf_player_id = Some p, pf_x = Some (real k * 3 / 4),
                 pf_y = Some 0 \<rparr>)
         [0..<11]"

definition ex_detected :: "int \<Rightarrow> sprint_candidate" where
  "ex_detected p =
     \<lparr> sp_match_id = PInt 1, sp_player_id = p, sp_frame_start = 0, sp_frame_end = 10,
       sp_mid_frame = 5, sp_duration_s = 11 / 10, sp_distance_m = 33 / 4,
       sp_avg_sprint_speed_kmh = 27, sp_max_sprint_speed_kmh = 27 \<rparr>"

definition ex_sorted_frames :: "player_frame list" where
  "ex_sorted_frames = ex_player_frames 4 @ ex_player_frames 9"

definition ex_distances :: "real option list" where
  "ex_distances = None # replicate 10 (Some (3 / 4))"

text \<open>
  A track with a teleport of 5 m at its fourth frame and a displacement of 0.95 m
  (34.2 km/h at 10 fps, above the ceiling) at its sixth; its speeds after the first two
  steps, after the median and after the mean.
\<close>

definition ex_teleport_distances :: "real option list" where
  "ex_teleport_distances =
     [None, Some (1 / 2), Some (3 / 5), Some 5, Some (7 / 10), Some (19 / 20), Some (3 / 5),
      Some (1 / 2), Some (7 / 10), Some (4 / 5), Some (3 / 5), Some (7 / 10)]"

definition ex_teleport_speeds :: "real option list" where
  "ex_teleport_speeds =
     [None, Some 18, Some (108 / 5), None, Some (126 / 5), Some 32, Some (108 / 5), Some 18,
      Some (126 / 5), Some (144 / 5), Some (108 / 5), Some (126 / 5)]"

definition ex_teleport_medians :: "real option list" where
  "ex_teleport_medians =
     [Some (117 / 5), Some (108 / 5), Some (108 / 5), Some (108 / 5), Some (117 / 5),
      Some (108 / 5), Some (117 / 5), Some (126 / 5), Some (126 / 5), Some (126 / 5),
      Some (126 / 5), Some (117 / 5)]"

definition ex_teleport_smooth :: "real option list" where
  "ex_teleport_smooth =
     [Some (441 / 20), Some (558 / 25), Some (111 / 5), Some (783 / 35), Some (792 / 35),
      Some (162 / 7), Some (828 / 35), Some (846 / 35), Some (846 / 35), Some (123 / 5),
      Some (621 / 25), Some (99 / 4)]"

section \<open>Properties of the enrichment\<close>

lemma add_high_value_simps:
  "sd_sprint (add_high_value d) = sd_sprint d"
  "team_in_possession_phase_type (add_high_value d) = team_in_possession_phase_type d"
  "team_out_of_possession_phase_type (add_high_value d) = team_out_of_possession_phase_type d"
  "team_in_possession_id (add_high_value d) = team_in_possession_id d"
  "possession_lead_to_shot (add_high_value d) = possession_lead_to_shot d"
  "possession_lead_to_goal (add_high_value d) = possession_lead_to_goal d"
  "third_end (add_high_value d) = third_end d"
  "channel_end (add_high_value d) = channel_end d"
  "is_high_value_phase (add_high_value d) = isin (team_in_possession_phase_type d) high_value_phases"
  by (simp_all add: add_high_value_def sprint_dict.defs enriched_sprint.defs)

lemma enrich_rows_length:
  "enrich_rows phases ss = Inr ds \<Longrightarrow> length ds = length ss"
  by (induction ss arbitrary: ds) (auto split: sum.splits)

lemma enrich_rows_nth:
  "enrich_rows phases ss = Inr ds \<Longrightarrow> i < length ss \<Longrightarrow>
   enrich_row phases (ss ! i) = Inr (ds ! i)"
proof (induction ss arbitrary: ds i)
  case Nil
  then show ?case by simp
next
  case (Cons s ss)
  then show ?case by (cases i) (auto split: sum.splits)
qed

lemma enrich_sprints_nth:
  assumes "enrich_sprints_with_phases ss phases = Inr out" and "i < length ss"
  shows "length out = length ss"
    and "\<exists>d. enrich_row phases (ss ! i) = Inr d \<and> out ! i = add_high_value d"
proof -
  from assms(1) obtain ds
    where ds: "enrich_rows phases ss = Inr ds" and out: "out = map add_high_value ds"
    by (auto simp: enrich_sprints_with_phases_def split: sum.splits if_splits)
  show "length out = length ss" using ds out by (simp add: enrich_rows_length)
  have "i < length ds" using ds assms(2) by (simp add: enrich_rows_length)
  then show "\<exists>d. enrich_row phases (ss ! i) = Inr d \<and> out ! i = add_high_value d"
    using enrich_rows_nth[OF ds assms(2)] out by simp
qed

lemma with_phase_total: "has_phase_columns p \<Longrightarrow> \<exists>d. with_phase s p = Inr d"
  by (auto simp: has_phase_columns_def with_phase_def getitem_def)

lemma enrich_row_total:
  assumes "\<forall>p\<in>set phases. has_phase_columns p"
  shows "\<exists>d. enrich_row phases s = Inr d"
proof (cases "phase_match s phases")
  case Nil
  then show ?thesis by (simp add: enrich_row_def)
next
  case (Cons p rest)
  then have "p \<in> set (phase_match s phases)" by simp
  then have "p \<in> set phases" by (simp add: phase_match_def)
  then show ?thesis using assms Cons with_phase_total by (simp add: enrich_row_def)
qed

lemma enrich_rows_total:
  assumes "\<forall>p\<in>set phases. has_phase_columns p"
  shows "\<exists>ds. enrich_rows phases ss = Inr ds"
proof (induction ss)
  case Nil
  then show ?case by simp
next
  case (Cons s ss)
  then show ?case using enrich_row_total[OF assms, of s] by auto
qed

lemma enrich_sprints_total:
  assumes "\<forall>p\<in>set phases. has_phase_columns p" and "ss \<noteq> []"
  shows "\<exists>out. enrich_sprints_with_phases ss phases = Inr out"
proof -
  obtain ds where ds: "enrich_rows phases ss = Inr ds"
    using enrich_rows_total[OF assms(1)] by blast
  then have "ds \<noteq> []" using assms(2) enrich_rows_length by fastforce
  then show ?thesis using ds by (simp add: enrich_sprints_with_phases_def)
qed

lemma phase_match_first:
  assumes "phase_match s phases = p # rest"
  shows "\<exists>pre post. phases = pre @ p # post \<and> (\<forall>q\<in>set pre. \<not> contains_mid s q)
           \<and> contains_mid s p"
proof -
  from assms have "filter (contains_mid s) phases = p # rest" by (simp add: phase_match_def)
  then obtain pre post
    where "phases = pre @ p # post" "\<forall>q\<in>set pre. \<not> contains_mid s q" "contains_mid s p"
    by (auto simp: filter_eq_Cons_iff)
  then show ?thesis by blast
qed

lemmas enrich_eval =
  enrich_sprints_with_phases_def enrich_row_def phase_match_def contains_mid_def pd_eq_def
  ex_sprint_def ex_phase_def ex_cols_def ex_outcome_cols_def ex_spec_cols_def with_phase_def
  getitem_def get_default_def no_phase_def add_high_value_def sprint_dict.defs
  enriched_sprint.defs isin_def high_value_phases_def

text \<open>
  C1, as the specification states it, fails: of two intervals of the match that both
  contain \<open>mid_frame = 10\<close>, the first row \<open>[5, 20]\<close> and the second row \<open>[0, 20]\<close>, the
  sprint is joined to the first row (team 1), whose \<open>frame_start\<close> is the higher one.
\<close>

theorem enrich_lowest_frame_start_counterexample:
  "phase_match ex_sprint [ex_phase 5 20 (ex_cols 1), ex_phase 0 20 (ex_cols 2)]
     = [ex_phase 5 20 (ex_cols 1), ex_phase 0 20 (ex_cols 2)]
   \<and> ph_frame_start (ex_phase 0 20 (ex_cols 2)) = Some 0
   \<and> ph_frame_start (ex_phase 5 20 (ex_cols 1)) = Some 5
   \<and> enrich_sprints_with_phases [ex_sprint]
        [ex_phase 5 20 (ex_cols 1), ex_phase 0 20 (ex_cols 2)]
     = Inr [\<lparr> sd_sprint = ex_sprint,
              team_in_possession_phase_type = PStr ''create'',
              team_out_of_possession_phase_type = PStr ''low_block'',
              team_in_possession_id = PInt 1,
              possession_lead_to_shot = PBool False,
              possession_lead_to_goal = PBool False,
              third_end = PNone, channel_end = PNone,
              is_high_value_phase = True \<rparr>]"
  by (simp add: enrich_eval)

text \<open>
  C1, amended: when two or more intervals of the match contain the sprint's \<open>mid_frame\<close>,
  \<open>enrich_sprints_with_phases\<close> joins the sprint to the first of them in the row order of
  \<open>phases_df\<close> (no row before it contains \<open>mid_frame\<close>); when the rows of \<open>phases_df\<close> are in
  ascending order of \<open>frame_start\<close>, that row has the lowest \<open>frame_start\<close> of the
  containing intervals. The choice is a function of the two tables alone.
\<close>

theorem enrich_first_row_in_table_order:
  assumes "enrich_sprints_with_phases sprints phases = Inr out"
      and "i < length sprints"
      and "phase_match (sprints ! i) phases = p # q # rest"
  shows "(\<exists>pre post. phases = pre @ p # post
            \<and> (\<forall>r\<in>set pre. \<not> contains_mid (sprints ! i) r))
       \<and> (\<exists>d. with_phase (sprints ! i) p = Inr d \<and> out ! i = add_high_value d)
       \<and> (sorted_wrt frame_start_le phases \<longrightarrow>
            (\<forall>r\<in>set (q # rest). frame_start_le p r))"
proof -
  have "\<exists>pre post. phases = pre @ p # post
          \<and> (\<forall>r\<in>set pre. \<not> contains_mid (sprints ! i) r)"
    using phase_match_first[OF assms(3)] by blast
  moreover have "\<exists>d. with_phase (sprints ! i) p = Inr d \<and> out ! i = add_high_value d"
    using enrich_sprints_nth(2)[OF assms(1,2)] assms(3) by (simp add: enrich_row_def)
  moreover have "\<forall>r\<in>set (q # rest). frame_start_le p r"
    if srt: "sorted_wrt frame_start_le phases"
  proof -
    have "sorted_wrt frame_start_le (filter (contains_mid (sprints ! i)) phases)"
      using srt by (rule sorted_wrt_filter)
    then have "sorted_wrt frame_start_le (p # q # rest)"
      using assms(3) by (simp add: phase_match_def)
    then show ?thesis by auto
  qed
  ultimately show ?thesis by blast
qed

theorem enrich_first_row_in_table_order_witness:
  "sorted_wrt frame_start_le [ex_phase 0 20 (ex_cols 2), ex_phase 5 20 (ex_cols 1)]
   \<and> phase_match ex_sprint [ex_phase 0 20 (ex_cols 2), ex_phase 5 20 (ex_cols 1)]
       = [ex_phase 0 20 (ex_cols 2), ex_phase 5 20 (ex_cols 1)]
   \<and> frame_start_le (ex_phase 0 20 (ex_cols 2)) (ex_phase 5 20 (ex_cols 1))
   \<and> (\<exists>d. with_phase ex_sprint (ex_phase 0 20 (ex_cols 2)) = Inr d)"
proof -
  let ?p = "ex_phase 0 20 (ex_cols 2)"
  let ?q = "ex_phase 5 20 (ex_cols 1)"
  obtain out where h1: "enrich_sprints_with_phases [ex_sprint] [?p, ?q] = Inr out"
    by (simp add: enrich_eval)
  have h2: "0 < length [ex_sprint]" by simp
  have pm: "phase_match ex_sprint [?p, ?q] = [?p, ?q]"
    by (simp add: phase_match_def contains_mid_def pd_eq_def ex_sprint_def ex_phase_def)
  then have h3: "phase_match ([ex_sprint] ! 0) [?p, ?q] = ?p # ?q # []" by simp
  have srt: "sorted_wrt frame_start_le [?p, ?q]"
    by (simp add: frame_start_le_def ex_phase_def)
  note t = enrich_first_row_in_table_order[OF h1 h2 h3]
  have a: "\<exists>d. with_phase ([ex_sprint] ! 0) ?p = Inr d \<and> out ! 0 = add_high_value d"
    by (rule t[THEN conjunct2, THEN conjunct1])
  have b: "\<forall>r\<in>set [?q]. frame_start_le ?p r"
    by (rule t[THEN conjunct2, THEN conjunct2, THEN mp, OF srt])
  from b have b': "frame_start_le ?p ?q" by simp
  from a have a': "\<exists>d. with_phase ex_sprint ?p = Inr d" by auto
  show ?thesis using srt pm b' a' by blast
qed

lemma flag_row_simps:
  "is_attacking_sprint (flag_row r) = pd_eq (team_id r) (team_in_possession_id r)"
  "is_defensive_sprint (flag_row r) = (\<not> pd_eq (team_id r) (team_in_possession_id r))"
  "in_attacking_third (flag_row r) = pd_eq (third_end r) (PStr ''attacking_third'')"
  "is_high_value_phase (flag_row r) = is_high_value_phase r"
  by (simp_all add: flag_row_def Let_def team_sprint.defs flagged_sprint.defs)

lemma join_team_id_simps:
  "team_id (join_team_id e t) = t"
  "team_in_possession_id (join_team_id e t) = team_in_possession_id e"
  "third_end (join_team_id e t) = third_end e"
  "is_high_value_phase (join_team_id e t) = is_high_value_phase e"
  by (simp_all add: join_team_id_def enriched_sprint.defs team_sprint.defs)

lemma pd_eq_null [simp]: "pd_eq a PNone = False" "pd_eq PNone b = False"
  by (simp_all add: pd_eq_def)

lemma enrich_unmatched_row:
  assumes "enrich_sprints_with_phases sprints phases = Inr out"
      and "i < length sprints"
      and "phase_match (sprints ! i) phases = []"
  shows "out ! i = add_high_value (no_phase (sprints ! i))"
  using enrich_sprints_nth(2)[OF assms(1,2)] assms(3) by (simp add: enrich_row_def)

text \<open>
  C2, as the specification states it, fails: a phase row that carries the outcome under
  the names of the specification's data model, \<open>possession_lead_to_shot = True\<close> and
  \<open>possession_lead_to_goal = True\<close>, and contains the sprint's \<open>mid_frame\<close>, gives an
  enriched record whose two outcome fields are \<open>False\<close>.
\<close>

theorem enrich_outcome_columns_counterexample:
  "phase_match ex_sprint [ex_phase 0 20 (ex_cols 1 @ ex_spec_cols)]
     = [ex_phase 0 20 (ex_cols 1 @ ex_spec_cols)]
   \<and> ph_cols (ex_phase 0 20 (ex_cols 1 @ ex_spec_cols)) ''possession_lead_to_shot''
       = Some (PBool True)
   \<and> ph_cols (ex_phase 0 20 (ex_cols 1 @ ex_spec_cols)) ''possession_lead_to_goal''
       = Some (PBool True)
   \<and> enrich_sprints_with_phases [ex_sprint] [ex_phase 0 20 (ex_cols 1 @ ex_spec_cols)]
     = Inr [\<lparr> sd_sprint = ex_sprint,
              team_in_possession_phase_type = PStr ''create'',
              team_out_of_possession_phase_type = PStr ''low_block'',
              team_in_possession_id = PInt 1,
              possession_lead_to_shot = PBool False,
              possession_lead_to_goal = PBool False,
              third_end = PNone, channel_end = PNone,
              is_high_value_phase = True \<rparr>]"
  by (simp add: enrich_eval)

text \<open>
  C2, amended: for every sprint whose \<open>mid_frame\<close> is contained in a PhaseInterval of its
  match, the enriched record carries the fields of the joined row \<open>p\<close> (the first
  containing row): its phase-type and possession-id fields are \<open>p\<close>'s columns of the same
  names; \<open>possession_lead_to_shot\<close> and \<open>possession_lead_to_goal\<close> are \<open>p\<close>'s columns
  \<open>team_possession_lead_to_shot\<close> and \<open>team_possession_lead_to_goal\<close>, and \<open>False\<close> where
  \<open>p\<close> has no such column; \<open>third_end\<close> and \<open>channel_end\<close> are \<open>p\<close>'s columns of the same
  names, and null where \<open>p\<close> has no such column.
\<close>

theorem enrich_copies_phase_columns:
  assumes "enrich_sprints_with_phases sprints phases = Inr out"
      and "i < length sprints"
      and "phase_match (sprints ! i) phases = p # rest"
  shows "ph_cols p ''team_in_possession_phase_type''
           = Some (team_in_possession_phase_type (out ! i))
       \<and> ph_cols p ''team_out_of_possession_phase_type''
           = Some (team_out_of_possession_phase_type (out ! i))
       \<and> ph_cols p ''team_in_possession_id'' = Some (team_in_possession_id (out ! i))
       \<and> possession_lead_to_shot (out ! i)
           = (case ph_cols p ''team_possession_lead_to_shot'' of
                None \<Rightarrow> PBool False | Some v \<Rightarrow> v)
       \<and> possession_lead_to_goal (out ! i)
           = (case ph_cols p ''team_possession_lead_to_goal'' of
                None \<Rightarrow> PBool False | Some v \<Rightarrow> v)
       \<and> third_end (out ! i)
           = (case ph_cols p ''third_end'' of None \<Rightarrow> PNone | Some v \<Rightarrow> v)
       \<and> channel_end (out ! i)
           = (case ph_cols p ''channel_end'' of None \<Rightarrow> PNone | Some v \<Rightarrow> v)"
proof -
  obtain d where d: "with_phase (sprints ! i) p = Inr d" and o: "out ! i = add_high_value d"
    using enrich_sprints_nth(2)[OF assms(1,2)] assms(3) by (auto simp: enrich_row_def)
  from d obtain tip toop tid where
    c: "ph_cols p ''team_in_possession_phase_type'' = Some tip"
       "ph_cols p ''team_out_of_possession_phase_type'' = Some toop"
       "ph_cols p ''team_in_possession_id'' = Some tid"
    by (auto simp: with_phase_def getitem_def split: option.splits)
  from d c have "d = \<lparr> sd_sprint = sprints ! i,
              team_in_possession_phase_type = tip,
              team_out_of_possession_phase_type = toop,
              team_in_possession_id = tid,
              possession_lead_to_shot =
                get_default (ph_cols p) ''team_possession_lead_to_shot'' (PBool False),
              possession_lead_to_goal =
                get_default (ph_cols p) ''team_possession_lead_to_goal'' (PBool False),
              third_end = get_default (ph_cols p) ''third_end'' PNone,
              channel_end = get_default (ph_cols p) ''channel_end'' PNone \<rparr>"
    by (simp add: with_phase_def getitem_def)
  then show ?thesis using c o by (simp add: add_high_value_simps get_default_def)
qed

theorem enrich_copies_phase_columns_witness:
  "phase_match ex_sprint [ex_phase 0 20 (ex_cols 1 @ ex_outcome_cols)]
     = [ex_phase 0 20 (ex_cols 1 @ ex_outcome_cols)]
   \<and> (\<exists>out. enrich_sprints_with_phases [ex_sprint] [ex_phase 0 20 (ex_cols 1 @ ex_outcome_cols)]
          = Inr out
        \<and> team_in_possession_phase_type (out ! 0) = PStr ''create''
        \<and> team_in_possession_id (out ! 0) = PInt 1
        \<and> possession_lead_to_shot (out ! 0) = PBool True
        \<and> possession_lead_to_goal (out ! 0) = PBool False
        \<and> third_end (out ! 0) = PStr ''attacking_third''
        \<and> channel_end (out ! 0) = PStr ''center'')"
proof -
  let ?p = "ex_phase 0 20 (ex_cols 1 @ ex_outcome_cols)"
  obtain out where h1: "enrich_sprints_with_phases [ex_sprint] [?p] = Inr out"
    by (simp add: enrich_eval)
  have h2: "0 < length [ex_sprint]" by simp
  have pm: "phase_match ex_sprint [?p] = [?p]"
    by (simp add: phase_match_def contains_mid_def pd_eq_def ex_sprint_def ex_phase_def)
  then have h3: "phase_match ([ex_sprint] ! 0) [?p] = ?p # []" by simp
  note t = enrich_copies_phase_columns[OF h1 h2 h3]
  have c: "ph_cols ?p ''team_in_possession_phase_type'' = Some (PStr ''create'')"
      "ph_cols ?p ''team_in_possession_id'' = Some (PInt 1)"
      "ph_cols ?p ''team_possession_lead_to_shot'' = Some (PBool True)"
      "ph_cols ?p ''team_possession_lead_to_goal'' = Some (PBool False)"
      "ph_cols ?p ''third_end'' = Some (PStr ''attacking_third'')"
      "ph_cols ?p ''channel_end'' = Some (PStr ''center'')"
    by (simp_all add: ex_phase_def ex_cols_def ex_outcome_cols_def)
  have "team_in_possession_phase_type (out ! 0) = PStr ''create''"
    using t[THEN conjunct1] c(1) by simp
  moreover have "team_in_possession_id (out ! 0) = PInt 1"
    using t[THEN conjunct2, THEN conjunct2, THEN conjunct1] c(2) by simp
  moreover have "possession_lead_to_shot (out ! 0) = PBool True"
    using t[THEN conjunct2, THEN conjunct2, THEN conjunct2, THEN conjunct1] c(3) by simp
  moreover have "possession_lead_to_goal (out ! 0) = PBool False"
    using t[THEN conjunct2, THEN conjunct2, THEN conjunct2, THEN conjunct2, THEN conjunct1] c(4)
    by simp
  moreover have "third_end (out ! 0) = PStr ''attacking_third''"
    using t[THEN conjunct2, THEN conjunct2, THEN conjunct2, THEN conjunct2, THEN conjunct2,
            THEN conjunct1] c(5) by simp
  moreover have "channel_end (out ! 0) = PStr ''center''"
    using t[THEN conjunct2, THEN conjunct2, THEN conjunct2, THEN conjunct2, THEN conjunct2,
            THEN conjunct2] c(6) by simp
  ultimately show ?thesis using pm h1 by blast
qed

text \<open>
  C9: a sprint whose \<open>mid_frame\<close> no PhaseInterval of its match contains is retained.
  Whenever the call returns, its output has one record per input sprint, and the record
  of such a sprint has the five phase fields null, the two outcome fields \<open>False\<close> and
  the sprint's own columns unchanged; and the call does return when every phase row has
  the three columns that are read with \<open>phase[...]\<close>.
\<close>

theorem enrich_unmatched_retained:
  assumes "i < length sprints"
      and "phase_match (sprints ! i) phases = []"
  shows "(\<forall>out. enrich_sprints_with_phases sprints phases = Inr out \<longrightarrow>
            length out = length sprints
          \<and> sd_sprint (out ! i) = sprints ! i
          \<and> team_in_possession_phase_type (out ! i) = PNone
          \<and> team_out_of_possession_phase_type (out ! i) = PNone
          \<and> team_in_possession_id (out ! i) = PNone
          \<and> third_end (out ! i) = PNone
          \<and> channel_end (out ! i) = PNone
          \<and> possession_lead_to_shot (out ! i) = PBool False
          \<and> possession_lead_to_goal (out ! i) = PBool False)
       \<and> ((\<forall>p\<in>set phases. has_phase_columns p) \<longrightarrow>
            (\<exists>out. enrich_sprints_with_phases sprints phases = Inr out))"
proof (intro conjI allI impI)
  assume "\<forall>p\<in>set phases. has_phase_columns p"
  moreover have "sprints \<noteq> []" using assms(1) by auto
  ultimately show "\<exists>out. enrich_sprints_with_phases sprints phases = Inr out"
    by (rule enrich_sprints_total)
next
  fix out assume h: "enrich_sprints_with_phases sprints phases = Inr out"
  show "length out = length sprints" using enrich_sprints_nth(1)[OF h assms(1)] .
  have o: "out ! i = add_high_value (no_phase (sprints ! i))"
    using enrich_unmatched_row[OF h assms] .
  show "sd_sprint (out ! i) = sprints ! i"
    "team_in_possession_phase_type (out ! i) = PNone"
    "team_out_of_possession_phase_type (out ! i) = PNone"
    "team_in_possession_id (out ! i) = PNone"
    "third_end (out ! i) = PNone"
    "channel_end (out ! i) = PNone"
    "possession_lead_to_shot (out ! i) = PBool False"
    "possession_lead_to_goal (out ! i) = PBool False"
    by (simp_all add: o add_high_value_simps no_phase_def)
qed

theorem enrich_unmatched_retained_witness:
  "phase_match ex_sprint [ex_phase 50 60 (ex_cols 1)] = []
   \<and> has_phase_columns (ex_phase 50 60 (ex_cols 1))
   \<and> (\<exists>out. enrich_sprints_with_phases [ex_sprint] [ex_phase 50 60 (ex_cols 1)] = Inr out
        \<and> length out = 1
        \<and> sd_sprint (out ! 0) = ex_sprint
        \<and> team_in_possession_id (out ! 0) = PNone
        \<and> possession_lead_to_shot (out ! 0) = PBool False)"
proof -
  let ?p = "ex_phase 50 60 (ex_cols 1)"
  have h1: "0 < length [ex_sprint]" by simp
  have pm: "phase_match ex_sprint [?p] = []"
    by (simp add: phase_match_def contains_mid_def pd_eq_def ex_sprint_def ex_phase_def)
  then have h2: "phase_match ([ex_sprint] ! 0) [?p] = []" by simp
  have hp: "has_phase_columns ?p"
    by (simp add: has_phase_columns_def ex_phase_def ex_cols_def)
  then have hp': "\<forall>p\<in>set [?p]. has_phase_columns p" by simp
  note t = enrich_unmatched_retained[OF h1 h2]
  obtain out where o: "enrich_sprints_with_phases [ex_sprint] [?p] = Inr out"
    using t[THEN conjunct2, THEN mp, OF hp'] by blast
  note f = t[THEN conjunct1, THEN spec, THEN mp, OF o]
  have "length out = 1" using f[THEN conjunct1] by simp
  moreover have "sd_sprint (out ! 0) = ex_sprint"
    using f[THEN conjunct2, THEN conjunct1] by simp
  moreover have "team_in_possession_id (out ! 0) = PNone"
    using f[THEN conjunct2, THEN conjunct2, THEN conjunct2, THEN conjunct2, THEN conjunct1] .
  moreover have "possession_lead_to_shot (out ! 0) = PBool False"
    using f[THEN conjunct2, THEN conjunct2, THEN conjunct2, THEN conjunct2, THEN conjunct2,
            THEN conjunct2, THEN conjunct2, THEN conjunct1] .
  ultimately show ?thesis using pm hp o by blast
qed

lemma flag_row_null_possession:
  assumes "team_in_possession_id r = PNone"
  shows "\<not> is_attacking_sprint (flag_row r)" and "is_defensive_sprint (flag_row r)"
  using assms by (simp_all add: flag_row_simps)

text \<open>
  C10: a sprint that was joined to no PhaseInterval has a null \<open>team_in_possession_id\<close>,
  and after the metadata join (whatever \<open>team_id\<close> it brings, null included) and
  \<open>add_sprint_context_flags\<close> its record has \<open>is_attacking_sprint = False\<close>,
  \<open>is_defensive_sprint = True\<close>, \<open>is_high_value_phase = False\<close> and
  \<open>in_attacking_third = False\<close>.
\<close>

theorem unmatched_sprint_is_defensive:
  assumes "enrich_sprints_with_phases sprints phases = Inr out"
      and "i < length sprints"
      and "phase_match (sprints ! i) phases = []"
      and "length teams = length out"
      and "flagged = add_sprint_context_flags (map2 join_team_id out teams)"
  shows "team_in_possession_id (flagged ! i) = PNone
       \<and> \<not> is_attacking_sprint (flagged ! i)
       \<and> is_defensive_sprint (flagged ! i)
       \<and> \<not> is_high_value_phase (flagged ! i)
       \<and> \<not> in_attacking_third (flagged ! i)"
proof -
  have len: "length out = length sprints" using enrich_sprints_nth(1)[OF assms(1,2)] .
  have o: "out ! i = add_high_value (no_phase (sprints ! i))"
    using enrich_unmatched_row[OF assms(1-3)] .
  have fl: "flagged ! i = flag_row (join_team_id (out ! i) (teams ! i))"
    using assms(2,4,5) len by (simp add: add_sprint_context_flags_def)
  have tid: "team_in_possession_id (join_team_id (out ! i) (teams ! i)) = PNone"
    by (simp add: join_team_id_simps o add_high_value_simps no_phase_def)
  have hv: "\<not> is_high_value_phase (out ! i)"
    by (simp add: o add_high_value_simps no_phase_def isin_def)
  have te: "third_end (out ! i) = PNone"
    by (simp add: o add_high_value_simps no_phase_def)
  have "team_in_possession_id (flagged ! i) = PNone"
    using tid by (simp add: fl flag_row_def Let_def team_sprint.defs flagged_sprint.defs)
  moreover have "\<not> is_attacking_sprint (flagged ! i)" "is_defensive_sprint (flagged ! i)"
    using flag_row_null_possession[OF tid] by (simp_all add: fl)
  moreover have "\<not> is_high_value_phase (flagged ! i)"
    using hv by (simp add: fl flag_row_simps join_team_id_simps)
  moreover have "\<not> in_attacking_third (flagged ! i)"
    using te by (simp add: fl flag_row_simps join_team_id_simps)
  ultimately show ?thesis by blast
qed

theorem unmatched_sprint_is_defensive_witness:
  "phase_match ex_sprint [ex_phase 50 60 (ex_cols 1)] = []
   \<and> (\<exists>out. enrich_sprints_with_phases [ex_sprint] [ex_phase 50 60 (ex_cols 1)] = Inr out
        \<and> length [PInt 1] = length out
        \<and> \<not> is_attacking_sprint
              (add_sprint_context_flags (map2 join_team_id out [PInt 1]) ! 0)
        \<and> is_defensive_sprint
              (add_sprint_context_flags (map2 join_team_id out [PInt 1]) ! 0)
        \<and> \<not> is_high_value_phase
              (add_sprint_context_flags (map2 join_team_id out [PInt 1]) ! 0)
        \<and> \<not> in_attacking_third
              (add_sprint_context_flags (map2 join_team_id out [PInt 1]) ! 0))"
proof -
  let ?p = "ex_phase 50 60 (ex_cols 1)"
  obtain out where h1: "enrich_sprints_with_phases [ex_sprint] [?p] = Inr out"
    by (simp add: enrich_eval)
  have h2: "0 < length [ex_sprint]" by simp
  have pm: "phase_match ex_sprint [?p] = []"
    by (simp add: phase_match_def contains_mid_def pd_eq_def ex_sprint_def ex_phase_def)
  then have h3: "phase_match ([ex_sprint] ! 0) [?p] = []" by simp
  have h4: "length [PInt 1] = length out"
    using enrich_sprints_nth(1)[OF h1 h2] by simp
  note t = unmatched_sprint_is_defensive[OF h1 h2 h3 h4 refl]
  show ?thesis using pm h1 h4 t by blast
qed

section \<open>Validation and summary of a run\<close>

lemma upt_eval: "[i..<j] = (if i < j then i # [Suc i..<j] else [])"
  by (simp add: upt_rec)

lemmas candidate_eval =
  candidate_of_group_def ex_run_def upt_eval mean_def quantile_def dropna_def py_int_def Let_def

lemma rejected_iff:
  "rejected c \<longleftrightarrow>
     \<not> (245 / 10 \<le> sp_avg_sprint_speed_kmh c \<and> sp_avg_sprint_speed_kmh c \<le> 29
        \<and> 26 \<le> sp_max_sprint_speed_kmh c \<and> sp_max_sprint_speed_kmh c \<le> 33
        \<and> sp_distance_m c \<ge> 7)"
  by (auto simp: rejected_def)

text \<open>
  C3: a candidate is appended to \<open>sprints_list\<close> (promoted) if and only if
  \<open>24.5 \<le> avg \<le> 29\<close>, \<open>26 \<le> max \<le> 33\<close> and \<open>distance \<ge> 7\<close>; otherwise the iteration
  leaves \<open>sprints_list\<close> as it is. A candidate with average speed 30 is not appended.
\<close>

theorem validator_all_three_bounds:
  assumes "candidate_of_group match_id player_id fps run = Inr (Some c)"
  shows "group_body match_id player_id fps run sprints_list =
           Inr (if 245 / 10 \<le> sp_avg_sprint_speed_kmh c \<and> sp_avg_sprint_speed_kmh c \<le> 29
                   \<and> 26 \<le> sp_max_sprint_speed_kmh c \<and> sp_max_sprint_speed_kmh c \<le> 33
                   \<and> sp_distance_m c \<ge> 7
                then sprints_list @ [c] else sprints_list)
       \<and> (sp_avg_sprint_speed_kmh c = 30 \<longrightarrow>
            group_body match_id player_id fps run sprints_list = Inr sprints_list)"
proof -
  have b: "group_body match_id player_id fps run sprints_list =
             Inr (if rejected c then sprints_list else sprints_list @ [c])"
    using assms by (simp add: group_body_def)
  have "sp_avg_sprint_speed_kmh c = 30 \<Longrightarrow> rejected c" by (simp add: rejected_def)
  then show ?thesis using b by (auto simp: rejected_iff)
qed

theorem validator_all_three_bounds_witness:
  "(\<exists>c. candidate_of_group (PInt 1) 7 10 (ex_run 50 [27, 27, 28, 27, 27, 27, 27, 26, 27, 27])
          = Inr (Some c)
       \<and> group_body (PInt 1) 7 10 (ex_run 50 [27, 27, 28, 27, 27, 27, 27, 26, 27, 27]) []
          = Inr [c])
   \<and> (\<exists>c. candidate_of_group (PInt 1) 7 10 (ex_run 50 [30, 30, 30, 30, 30, 30, 30, 30, 30, 30])
          = Inr (Some c)
       \<and> sp_avg_sprint_speed_kmh c = 30
       \<and> group_body (PInt 1) 7 10 (ex_run 50 [30, 30, 30, 30, 30, 30, 30, 30, 30, 30]) []
          = Inr [])"
proof -
  let ?g = "ex_run 50 [27, 27, 28, 27, 27, 27, 27, 26, 27, 27]"
  let ?c = "\<lparr>sp_match_id = PInt 1, sp_player_id = 7, sp_frame_start = 50,
             sp_frame_end = 59, sp_mid_frame = 54, sp_duration_s = 1,
             sp_distance_m = 15 / 2, sp_avg_sprint_speed_kmh = 27,
             sp_max_sprint_speed_kmh = 271 / 10\<rparr>"
  have c: "candidate_of_group (PInt 1) 7 10 ?g = Inr (Some ?c)"
    by (simp add: candidate_eval)
  have "group_body (PInt 1) 7 10 ?g [] = Inr [?c]"
    using validator_all_three_bounds[OF c, of "[]", THEN conjunct1] by simp
  then have A: "\<exists>c. candidate_of_group (PInt 1) 7 10 ?g = Inr (Some c)
       \<and> group_body (PInt 1) 7 10 ?g [] = Inr [c]"
    using c by blast
  let ?h = "ex_run 50 [30, 30, 30, 30, 30, 30, 30, 30, 30, 30]"
  let ?d = "\<lparr>sp_match_id = PInt 1, sp_player_id = 7, sp_frame_start = 50,
             sp_frame_end = 59, sp_mid_frame = 54, sp_duration_s = 1,
             sp_distance_m = 25 / 3, sp_avg_sprint_speed_kmh = 30,
             sp_max_sprint_speed_kmh = 30\<rparr>"
  have d: "candidate_of_group (PInt 1) 7 10 ?h = Inr (Some ?d)"
    by (simp add: candidate_eval)
  have "group_body (PInt 1) 7 10 ?h [] = Inr []"
    using validator_all_three_bounds[OF d, of "[]", THEN conjunct2] by simp
  then have B: "\<exists>c. candidate_of_group (PInt 1) 7 10 ?h = Inr (Some c)
       \<and> sp_avg_sprint_speed_kmh c = 30
       \<and> group_body (PInt 1) 7 10 ?h [] = Inr []"
    using d by (intro exI[of _ ?d]) simp
  show ?thesis using A B by blast
qed


lemma py_int_negative_example:
  "py_int (of_int (-3 + 2) / 2) = 0 \<and> \<lfloor>(of_int (-3 + 2) / 2 :: real)\<rfloor> = -1"
  by (simp add: py_int_def ceiling_def)




section \<open>The smoothed speed curve\<close>

lemma filter_range_upt:
  "filter (\<lambda>j. a \<le> j \<and> j < b) [0..<n] = [a..<min b n]"
proof (induction n)
  case 0
  then show ?case by simp
next
  case (Suc n)
  show ?case
  proof (cases "a \<le> n \<and> n < b")
    case True
    then have "min b (Suc n) = Suc n" "min b n = n" by auto
    then have "[a..<min b (Suc n)] = [a..<min b n] @ [n]"
      using True by simp
    then show ?thesis using Suc True by simp
  next
    case False
    then have "[a..<min b (Suc n)] = [a..<min b n]"
      by (auto simp: min_def)
    then show ?thesis using Suc False by auto
  qed
qed

lemma drop_take_nth:
  "drop a (take b xs) = map (\<lambda>j. xs ! j) [a..<min b (length xs)]"
proof -
  have "take b xs = map (\<lambda>j. xs ! j) [0..<min b (length xs)]"
    by (rule nth_equalityI) auto
  then have "drop a (take b xs) = map (\<lambda>j. xs ! j) (drop a [0..<min b (length xs)])"
    by (simp add: drop_map)
  then show ?thesis by simp
qed

lemma window_at_centered:
  "window_at (2 * h + 1) xs i = spec_centered_window h xs i"
proof -
  have "(\<lambda>j. i \<le> j + h \<and> j \<le> i + h) = (\<lambda>j. i + 1 + h - (2 * h + 1) \<le> j \<and> j < i + 1 + h)"
    by (rule ext) auto
  then have "filter (\<lambda>j. i \<le> j + h \<and> j \<le> i + h) [0..<length xs]
               = [i + 1 + h - (2 * h + 1)..<min (i + 1 + h) (length xs)]"
    by (simp only: filter_range_upt)
  then show ?thesis
    by (simp add: window_at_def spec_centered_window_def Let_def drop_take_nth)
qed

lemma dropna_comprehension: "dropna xs = [v. Some v \<leftarrow> xs]"
  by (simp add: dropna_def)

lemma min_periods_one:
  "(if length ws < 1 then None else Some (stat ws))
     = (case ws of [] \<Rightarrow> None | v # vs \<Rightarrow> Some (stat (v # vs)))"
  by (cases ws) simp_all

lemma rolling_centered:
  "rolling (2 * h + 1) stat xs = spec_centered_rolling h stat xs"
  unfolding rolling_def spec_centered_rolling_def window_at_centered Let_def min_periods_one
  by (simp add: dropna_comprehension)

lemma mask_teleport_spec: "mask_teleport d = spec_teleport_rejection 1 d"
  by (simp add: mask_teleport_def spec_teleport_rejection_def)

lemma clip_kmh_spec: "clip_upper cap (to_kmh fps d) = spec_hard_cap fps cap d"
  by (cases d) (simp_all add: clip_upper_def to_kmh_def spec_hard_cap_def)

lemma count_up_to:
  assumes "sorted s" and "k < length s"
  shows "Suc k \<le> length (filter (\<lambda>u. u \<le> s ! k) (s :: real list))"
proof -
  have "\<forall>x\<in>set (take (Suc k) s). x \<le> s ! k"
  proof
    fix x assume "x \<in> set (take (Suc k) s)"
    then obtain i where "i < Suc k" "i < length s" "x = s ! i"
      by (auto simp: in_set_conv_nth)
    then show "x \<le> s ! k" using assms by (simp add: sorted_nth_mono)
  qed
  then have "filter (\<lambda>u. u \<le> s ! k) (take (Suc k) s) = take (Suc k) s" by simp
  moreover have "filter (\<lambda>u. u \<le> s ! k) s
      = filter (\<lambda>u. u \<le> s ! k) (take (Suc k) s) @ filter (\<lambda>u. u \<le> s ! k) (drop (Suc k) s)"
    by (metis append_take_drop_id filter_append)
  ultimately have "length (filter (\<lambda>u. u \<le> s ! k) s) \<ge> length (take (Suc k) s)" by simp
  then show ?thesis using assms(2) by simp
qed

lemma count_from:
  assumes "sorted s" and "k < length s"
  shows "length s - k \<le> length (filter (\<lambda>u. s ! k \<le> u) (s :: real list))"
proof -
  have "\<forall>x\<in>set (drop k s). s ! k \<le> x"
  proof
    fix x assume "x \<in> set (drop k s)"
    then obtain i where "i < length s - k" "x = s ! (k + i)"
      by (auto simp: in_set_conv_nth)
    then show "s ! k \<le> x" using assms by (simp add: sorted_nth_mono)
  qed
  then have "filter (\<lambda>u. s ! k \<le> u) (drop k s) = drop k s" by simp
  moreover have "filter (\<lambda>u. s ! k \<le> u) s
      = filter (\<lambda>u. s ! k \<le> u) (take k s) @ filter (\<lambda>u. s ! k \<le> u) (drop k s)"
    by (metis append_take_drop_id filter_append)
  ultimately have "length (filter (\<lambda>u. s ! k \<le> u) s) \<ge> length (drop k s)" by simp
  then show ?thesis by simp
qed

lemma count_below:
  assumes "sorted s" and "k < length s" and "v < s ! k"
  shows "length (filter (\<lambda>u. u \<le> v) (s :: real list)) \<le> k"
proof -
  have "\<forall>x\<in>set (drop k s). \<not> x \<le> v"
  proof
    fix x assume "x \<in> set (drop k s)"
    then obtain i where "i < length s - k" "x = s ! (k + i)"
      by (auto simp: in_set_conv_nth)
    then have "s ! k \<le> x" using assms by (simp add: sorted_nth_mono)
    then show "\<not> x \<le> v" using assms(3) by simp
  qed
  then have "filter (\<lambda>u. u \<le> v) (drop k s) = []" by simp
  moreover have "filter (\<lambda>u. u \<le> v) s
      = filter (\<lambda>u. u \<le> v) (take k s) @ filter (\<lambda>u. u \<le> v) (drop k s)"
    by (metis append_take_drop_id filter_append)
  ultimately have "length (filter (\<lambda>u. u \<le> v) s) = length (filter (\<lambda>u. u \<le> v) (take k s))"
    by simp
  also have "\<dots> \<le> length (take k s)" by (rule length_filter_le)
  finally show ?thesis by simp
qed

lemma count_above:
  assumes "sorted s" and "k < length s" and "s ! k < v"
  shows "length (filter (\<lambda>u. v \<le> u) (s :: real list)) \<le> length s - Suc k"
proof -
  have "\<forall>x\<in>set (take (Suc k) s). \<not> v \<le> x"
  proof
    fix x assume "x \<in> set (take (Suc k) s)"
    then obtain i where "i < Suc k" "i < length s" "x = s ! i"
      by (auto simp: in_set_conv_nth)
    then have "x \<le> s ! k" using assms by (simp add: sorted_nth_mono)
    then show "\<not> v \<le> x" using assms(3) by simp
  qed
  then have "filter (\<lambda>u. v \<le> u) (take (Suc k) s) = []" by simp
  moreover have "filter (\<lambda>u. v \<le> u) s
      = filter (\<lambda>u. v \<le> u) (take (Suc k) s) @ filter (\<lambda>u. v \<le> u) (drop (Suc k) s)"
    by (metis append_take_drop_id filter_append)
  ultimately have "length (filter (\<lambda>u. v \<le> u) s)
      = length (filter (\<lambda>u. v \<le> u) (drop (Suc k) s))"
    by simp
  also have "\<dots> \<le> length (drop (Suc k) s)" by (rule length_filter_le)
  finally show ?thesis by simp
qed

lemma length_filter_sort: "length (filter P (sort xs)) = length (filter P xs)"
  by (simp add: filter_sort)

lemma lower_median:
  assumes "(vs :: real list) \<noteq> []"
  shows "Min (set (filter (\<lambda>v. length vs \<le> 2 * length (filter (\<lambda>u. u \<le> v) vs)) vs))
           = sort vs ! ((length vs - 1) div 2)"
proof (rule Min_eqI)
  let ?s = "sort vs" and ?n = "length vs" and ?k = "(length vs - 1) div 2"
  have n: "0 < ?n" using assms by simp
  have "?k < ?n" using n by presburger
  then have k: "?k < length ?s" by simp
  have srt: "sorted ?s" by simp
  show "finite (set (filter (\<lambda>v. ?n \<le> 2 * length (filter (\<lambda>u. u \<le> v) vs)) vs))" by simp
  show "?s ! ?k \<in> set (filter (\<lambda>v. ?n \<le> 2 * length (filter (\<lambda>u. u \<le> v) vs)) vs)"
  proof -
    have "Suc ?k \<le> length (filter (\<lambda>u. u \<le> ?s ! ?k) ?s)" using srt k by (rule count_up_to)
    then have "Suc ?k \<le> length (filter (\<lambda>u. u \<le> ?s ! ?k) vs)" by (simp add: length_filter_sort)
    then have "?n \<le> 2 * length (filter (\<lambda>u. u \<le> ?s ! ?k) vs)" by linarith
    moreover have "?s ! ?k \<in> set vs" using k by (metis nth_mem set_sort)
    ultimately show ?thesis by simp
  qed
  fix y assume "y \<in> set (filter (\<lambda>v. ?n \<le> 2 * length (filter (\<lambda>u. u \<le> v) vs)) vs)"
  then have y: "?n \<le> 2 * length (filter (\<lambda>u. u \<le> y) vs)" by simp
  show "?s ! ?k \<le> y"
  proof (rule ccontr)
    assume "\<not> ?s ! ?k \<le> y"
    then have "y < ?s ! ?k" by simp
    then have "length (filter (\<lambda>u. u \<le> y) ?s) \<le> ?k" using srt k by (intro count_below)
    then have "length (filter (\<lambda>u. u \<le> y) vs) \<le> ?k" by (simp add: length_filter_sort)
    then show False using y n by linarith
  qed
qed

lemma upper_median:
  assumes "(vs :: real list) \<noteq> []"
  shows "Max (set (filter (\<lambda>v. length vs \<le> 2 * length (filter (\<lambda>u. v \<le> u) vs)) vs))
           = sort vs ! (length vs div 2)"
proof (rule Max_eqI)
  let ?s = "sort vs" and ?n = "length vs" and ?k = "length vs div 2"
  have n: "0 < ?n" using assms by simp
  have "?k < ?n" using n by presburger
  then have k: "?k < length ?s" by simp
  have srt: "sorted ?s" by simp
  show "finite (set (filter (\<lambda>v. ?n \<le> 2 * length (filter (\<lambda>u. v \<le> u) vs)) vs))" by simp
  show "?s ! ?k \<in> set (filter (\<lambda>v. ?n \<le> 2 * length (filter (\<lambda>u. v \<le> u) vs)) vs)"
  proof -
    have "length ?s - ?k \<le> length (filter (\<lambda>u. ?s ! ?k \<le> u) ?s)" using srt k by (rule count_from)
    then have "?n - ?k \<le> length (filter (\<lambda>u. ?s ! ?k \<le> u) vs)" by (simp add: length_filter_sort)
    then have "?n \<le> 2 * length (filter (\<lambda>u. ?s ! ?k \<le> u) vs)" by linarith
    moreover have "?s ! ?k \<in> set vs" using k by (metis nth_mem set_sort)
    ultimately show ?thesis by simp
  qed
  fix y assume "y \<in> set (filter (\<lambda>v. ?n \<le> 2 * length (filter (\<lambda>u. v \<le> u) vs)) vs)"
  then have y: "?n \<le> 2 * length (filter (\<lambda>u. y \<le> u) vs)" by simp
  show "y \<le> ?s ! ?k"
  proof (rule ccontr)
    assume "\<not> y \<le> ?s ! ?k"
    then have "?s ! ?k < y" by simp
    then have "length (filter (\<lambda>u. y \<le> u) ?s) \<le> length ?s - Suc ?k"
      using srt k by (intro count_above)
    then have "length (filter (\<lambda>u. y \<le> u) vs) \<le> ?n - Suc ?k" by (simp add: length_filter_sort)
    then show False using y n by linarith
  qed
qed

lemma median_is_spec_median:
  assumes "vs \<noteq> []"
  shows "median vs = spec_median vs"
proof -
  have s: "spec_median vs
             = (sort vs ! ((length vs - 1) div 2) + sort vs ! (length vs div 2)) / 2"
    by (simp only: spec_median_def Let_def lower_median[OF assms] upper_median[OF assms])
  show ?thesis
  proof (cases "odd (length vs)")
    case True
    then have "(length vs - 1) div 2 = length vs div 2" by (auto elim: oddE)
    then show ?thesis using True by (simp add: s median_def Let_def)
  next
    case False
    then have "(length vs - 1) div 2 = length vs div 2 - 1" using assms by (auto elim: evenE)
    then show ?thesis using False by (simp add: s median_def Let_def)
  qed
qed

lemma mean_is_spec_mean: "mean vs = spec_mean vs"
  by (simp add: mean_def spec_mean_def sum_list_sum_nth atLeast0LessThan)

lemma spec_centered_rolling_cong:
  assumes "\<And>vs. vs \<noteq> [] \<Longrightarrow> stat vs = stat' vs"
  shows "spec_centered_rolling h stat xs = spec_centered_rolling h stat' xs"
  unfolding spec_centered_rolling_def
proof (rule map_cong[OF refl])
  fix i
  show "(case [v. Some v \<leftarrow> spec_centered_window h xs i] of
           [] \<Rightarrow> None | v # vs \<Rightarrow> Some (stat (v # vs)))
      = (case [v. Some v \<leftarrow> spec_centered_window h xs i] of
           [] \<Rightarrow> None | v # vs \<Rightarrow> Some (stat' (v # vs)))"
  proof (cases "[v. Some v \<leftarrow> spec_centered_window h xs i]")
    case Nil
    then show ?thesis by (simp only: list.case)
  next
    case (Cons w ws)
    have "stat (w # ws) = stat' (w # ws)" by (rule assms) simp
    then show ?thesis by (simp only: Cons list.case)
  qed
qed


lemma ex_teleport_stages:
  "map (\<lambda>d. spec_hard_cap TRACKING_FPS 32 (spec_teleport_rejection 1 d)) ex_teleport_distances
     = ex_teleport_speeds"
  "spec_centered_rolling 5 spec_median ex_teleport_speeds = ex_teleport_medians"
  "spec_centered_rolling 3 spec_mean ex_teleport_medians = ex_teleport_smooth"
  "speeds_smooth TRACKING_FPS ex_teleport_distances = ex_teleport_smooth"
  by code_simp+

text \<open>
  C4: the smoothed speed curve of \<open>detect_sprints\<close> is the composition, in this order, of
  the teleport rejection at 1.0 m (to missing), the conversion \<open>distance * fps * 3.6\<close>
  with the 32 km/h ceiling, the centered median over 11 frames and the centered mean over
  7 frames, each statistic taken over the values present among the frames of the window
  that exist, where the median and the mean are the ones of the specification.
\<close>

theorem speeds_smooth_is_spec_pipeline:
  "speeds_smooth fps distances = spec_speed_smooth fps distances"
proof -
  have m: "rolling smooth_window median = spec_centered_rolling 5 spec_median"
  proof
    fix xs
    have "rolling smooth_window median xs = spec_centered_rolling 5 median xs"
      using rolling_centered[of 5 median xs] by (simp add: smooth_window_def)
    also have "\<dots> = spec_centered_rolling 5 spec_median xs"
      by (rule spec_centered_rolling_cong) (rule median_is_spec_median)
    finally show "rolling smooth_window median xs = spec_centered_rolling 5 spec_median xs" .
  qed
  have a: "rolling 7 mean = spec_centered_rolling 3 spec_mean"
  proof
    fix xs
    have "rolling 7 mean xs = spec_centered_rolling 3 mean xs"
      using rolling_centered[of 3 mean xs] by simp
    also have "\<dots> = spec_centered_rolling 3 spec_mean xs"
      by (rule spec_centered_rolling_cong) (rule mean_is_spec_mean)
    finally show "rolling 7 mean xs = spec_centered_rolling 3 spec_mean xs" .
  qed
  show ?thesis
    by (simp add: speeds_smooth_def spec_speed_smooth_def Let_def m a mask_teleport_spec
        clip_kmh_spec comp_def)
qed

theorem speeds_smooth_is_spec_pipeline_witness:
  "speeds_smooth TRACKING_FPS ex_teleport_distances = ex_teleport_smooth
   \<and> spec_speed_smooth TRACKING_FPS ex_teleport_distances = ex_teleport_smooth
   \<and> map (\<lambda>d. spec_hard_cap TRACKING_FPS 32 (spec_teleport_rejection 1 d)) ex_teleport_distances
       = ex_teleport_speeds
   \<and> spec_centered_rolling 5 spec_median ex_teleport_speeds = ex_teleport_medians
   \<and> spec_centered_rolling 3 spec_mean ex_teleport_medians = ex_teleport_smooth
   \<and> ex_teleport_distances ! 3 = Some 5 \<and> ex_teleport_speeds ! 3 = None
   \<and> ex_teleport_speeds ! 5 = Some 32"
proof -
  have "spec_speed_smooth TRACKING_FPS ex_teleport_distances = ex_teleport_smooth"
    using speeds_smooth_is_spec_pipeline[of TRACKING_FPS ex_teleport_distances]
      ex_teleport_stages(4) by simp
  moreover have "ex_teleport_distances ! 3 = Some 5" "ex_teleport_speeds ! 3 = None"
    "ex_teleport_speeds ! 5 = Some 32"
    by (simp_all add: ex_teleport_distances_def ex_teleport_speeds_def)
  ultimately show ?thesis using ex_teleport_stages by blast
qed

section \<open>Segmentation into runs\<close>

lemma annotate_rows_of:
  "annotate th frames smooth =
     rows_of frames smooth (sprint_flags th smooth) (cumsum 0 (changes None (sprint_flags th smooth)))"
  by (simp add: annotate_def rows_of_def sprint_flags_def Let_def)

lemma length_changes [simp]: "length (changes prev bs) = length bs"
  by (induction bs arbitrary: prev) simp_all

lemma length_cumsum [simp]: "length (cumsum acc cs) = length cs"
  by (induction cs arbitrary: acc) simp_all

lemma rows_of_append:
  assumes "length f1 = length v1" "length v1 = length b1" "length b1 = length g1"
  shows "rows_of (f1 @ f2) (v1 @ v2) (b1 @ b2) (g1 @ g2)
           = rows_of f1 v1 b1 g1 @ rows_of f2 v2 b2 g2"
  using assms by (simp add: rows_of_def)

lemma length_rows_of:
  assumes "length fs = n" "length vs = n" "length bs = n" "length gs = n"
  shows "length (rows_of fs vs bs gs) = n"
  using assms by (simp add: rows_of_def)

lemma rows_of_columns:
  assumes "length fs = n" "length vs = n" "length bs = n" "length gs = n"
  shows "map pr_frame (rows_of fs vs bs gs) = fs"
    and "map speed_smooth (rows_of fs vs bs gs) = vs"
    and "map is_sprinting (rows_of fs vs bs gs) = bs"
    and "map sprint_group (rows_of fs vs bs gs) = gs"
  using assms by (auto intro!: nth_equalityI simp: rows_of_def)

lemma changes_same_block:
  "changes (Some b) (replicate n b @ ys) = replicate n False @ changes (Some b) ys"
  by (induction n) simp_all

lemma changes_block:
  "0 < n \<Longrightarrow> changes prev (replicate n b @ ys)
     = (Some b \<noteq> prev) # replicate (n - 1) False @ changes (Some b) ys"
  by (cases n) (simp_all add: changes_same_block)

lemma cumsum_no_change:
  "cumsum acc (replicate n False @ cs) = replicate n acc @ cumsum acc cs"
  by (induction n) simp_all

lemma cumsum_block:
  assumes "0 < n"
  shows "cumsum acc (changes prev (replicate n b @ ys))
           = replicate n (acc + (if Some b \<noteq> prev then 1 else 0))
             @ cumsum (acc + (if Some b \<noteq> prev then 1 else 0)) (changes (Some b) ys)"
proof -
  obtain m where n: "n = Suc m" using assms by (cases n) auto
  show ?thesis
    by (simp add: n changes_same_block cumsum_no_change)
qed

lemma cumsum_block_any:
  "\<exists>k acc'. cumsum acc (changes prev (replicate n b @ ys))
             = replicate n k @ cumsum acc' (changes (if n = 0 then prev else Some b) ys)"
proof (cases "n = 0")
  case True
  then show ?thesis by auto
next
  case False
  then show ?thesis using cumsum_block[of n acc prev b ys] by auto
qed

lemma sprint_flags_blocks:
  assumes "\<forall>v\<in>set pre. \<not> fillna 0 v \<ge> th" "\<forall>v\<in>set run. fillna 0 v \<ge> th"
      "\<forall>v\<in>set post. \<not> fillna 0 v \<ge> th"
  shows "sprint_flags th (pre @ run @ post)
           = replicate (length pre) False @ replicate (length run) True
             @ replicate (length post) False"
proof -
  have "map (\<lambda>v. fillna 0 v \<ge> th) pre = replicate (length pre) False"
    using assms(1) by (intro replicate_eqI) auto
  moreover have "map (\<lambda>v. fillna 0 v \<ge> th) run = replicate (length run) True"
    using assms(2) by (intro replicate_eqI) auto
  moreover have "map (\<lambda>v. fillna 0 v \<ge> th) post = replicate (length post) False"
    using assms(3) by (intro replicate_eqI) auto
  ultimately show ?thesis by (simp add: sprint_flags_def)
qed

lemma groups_three_blocks:
  "\<exists>k1 k2 k3. cumsum 0 (changes None (replicate a False @ replicate n True @ replicate b False))
      = replicate a k1 @ replicate n k2 @ replicate b k3"
proof -
  obtain k1 acc1 where 1:
    "cumsum 0 (changes None (replicate a False @ replicate n True @ replicate b False))
       = replicate a k1
         @ cumsum acc1 (changes (if a = 0 then None else Some False)
                          (replicate n True @ replicate b False))"
    using cumsum_block_any[of 0 None a False "replicate n True @ replicate b False"] by blast
  obtain k2 acc2 where 2:
    "cumsum acc1 (changes (if a = 0 then None else Some False)
                    (replicate n True @ replicate b False))
       = replicate n k2
         @ cumsum acc2 (changes (if n = 0 then (if a = 0 then None else Some False) else Some True)
                          (replicate b False))"
    using cumsum_block_any[of acc1 "if a = 0 then None else Some False" n True "replicate b False"]
    by blast
  obtain k3 acc3 where 3:
    "cumsum acc2 (changes (if n = 0 then (if a = 0 then None else Some False) else Some True)
                    (replicate b False @ []))
       = replicate b k3 @ cumsum acc3 (changes
           (if b = 0 then (if n = 0 then (if a = 0 then None else Some False) else Some True)
            else Some False) [])"
    using cumsum_block_any[of acc2
        "if n = 0 then (if a = 0 then None else Some False) else Some True" b False "[]"]
    by blast
  from 3 have e3: "cumsum acc2 (changes (if n = 0 then (if a = 0 then None else Some False) else Some True)
                    (replicate b False)) = replicate b k3"
    by simp
  show ?thesis using 1 2 e3 by metis
qed

lemma remdups_replicate_pos: "0 < n \<Longrightarrow> remdups (replicate n x) = [x]"
proof (induction n)
  case 0
  then show ?case by simp
next
  case (Suc n)
  then show ?case by (cases n) auto
qed

lemma column_constant:
  assumes "map f rows = replicate n c"
  shows "\<forall>r\<in>set rows. f r = c"
proof
  fix r assume "r \<in> set rows"
  then have "f r \<in> set (map f rows)" by simp
  then have "f r \<in> set (replicate n c)" using assms by simp
  then show "f r = c" by simp
qed

lemma groupby_constant_key:
  assumes "rows \<noteq> []" "\<forall>r\<in>set rows. key r = k"
  shows "groupby key rows = [rows]"
proof -
  have "map key rows = replicate (length rows) k"
    using assms(2) by (intro replicate_eqI) auto
  then have "remdups (map key rows) = [k]"
    using assms(1) by (simp add: remdups_replicate_pos)
  then show ?thesis using assms(2) by (simp add: groupby_def)
qed

lemma single_run_group:
  assumes len: "length frames = length (pre @ run @ post)"
      and ne: "run \<noteq> []"
      and pre: "\<forall>v\<in>set pre. \<not> fillna 0 v \<ge> th"
      and run: "\<forall>v\<in>set run. fillna 0 v \<ge> th"
      and post: "\<forall>v\<in>set post. \<not> fillna 0 v \<ge> th"
  shows "\<exists>k. sprint_groups (annotate th frames (pre @ run @ post))
           = [rows_of (take (length run) (drop (length pre) frames)) run
                (replicate (length run) True) (replicate (length run) k)]"
proof -
  let ?a = "length pre" and ?n = "length run" and ?b = "length post"
  let ?F1 = "take ?a frames" and ?F2 = "take ?n (drop ?a frames)"
  let ?F3 = "drop (?a + ?n) frames"
  have F: "frames = ?F1 @ ?F2 @ ?F3"
    by (metis append_take_drop_id drop_drop add.commute)
  have lF: "length ?F1 = ?a" "length ?F2 = ?n" "length ?F3 = ?b"
    using len by auto
  obtain k1 k2 k3 where G:
    "cumsum 0 (changes None (replicate ?a False @ replicate ?n True @ replicate ?b False))
       = replicate ?a k1 @ replicate ?n k2 @ replicate ?b k3"
    using groups_three_blocks by blast
  let ?r1 = "rows_of ?F1 pre (replicate ?a False) (replicate ?a k1)"
  let ?r2 = "rows_of ?F2 run (replicate ?n True) (replicate ?n k2)"
  let ?r3 = "rows_of ?F3 post (replicate ?b False) (replicate ?b k3)"
  have "annotate th frames (pre @ run @ post)
          = rows_of (?F1 @ ?F2 @ ?F3) (pre @ run @ post)
              (replicate ?a False @ replicate ?n True @ replicate ?b False)
              (replicate ?a k1 @ replicate ?n k2 @ replicate ?b k3)"
    using F G by (simp add: annotate_rows_of sprint_flags_blocks[OF pre run post])
  also have "\<dots> = ?r1 @ ?r2 @ ?r3"
    using lF by (simp add: rows_of_append)
  finally have rows: "annotate th frames (pre @ run @ post) = ?r1 @ ?r2 @ ?r3" .
  have s1: "\<forall>r\<in>set ?r1. \<not> is_sprinting r"
  proof -
    have "map is_sprinting ?r1 = replicate ?a False"
      using lF by (intro rows_of_columns(3)[where n = ?a]) simp_all
    then show ?thesis using column_constant by fastforce
  qed
  have s3: "\<forall>r\<in>set ?r3. \<not> is_sprinting r"
  proof -
    have "map is_sprinting ?r3 = replicate ?b False"
      using lF by (intro rows_of_columns(3)[where n = ?b]) simp_all
    then show ?thesis using column_constant by fastforce
  qed
  have s2: "\<forall>r\<in>set ?r2. is_sprinting r"
  proof -
    have "map is_sprinting ?r2 = replicate ?n True"
      using lF by (intro rows_of_columns(3)[where n = ?n]) simp_all
    then show ?thesis using column_constant by fastforce
  qed
  have g2: "\<forall>r\<in>set ?r2. sprint_group r = k2"
  proof -
    have "map sprint_group ?r2 = replicate ?n k2"
      using lF by (intro rows_of_columns(4)[where n = ?n]) simp_all
    then show ?thesis by (rule column_constant)
  qed
  have "length ?r2 = ?n" using lF by (intro length_rows_of) simp_all
  then have ne2: "?r2 \<noteq> []" using ne by auto
  have "filter is_sprinting (annotate th frames (pre @ run @ post)) = ?r2"
    using s1 s2 s3 by (simp add: rows)
  then have "sprint_groups (annotate th frames (pre @ run @ post)) = [?r2]"
    using groupby_constant_key[OF ne2 g2] by (simp add: sprint_groups_def)
  then show ?thesis by blast
qed

lemma dropna_all_present:
  "\<forall>v\<in>set vs. v \<noteq> None \<Longrightarrow> length (dropna vs) = length vs"
  by (induction vs) (auto simp: dropna_def)

lemma consecutive_frames_slice:
  assumes "a + n \<le> N"
  shows "take n (drop a (map (\<lambda>k. f0 + int k) [0..<N])) = map (\<lambda>k. f0 + int k) [a..<a + n]"
  using assms by (simp add: drop_map take_map)

lemma Min_consecutive:
  assumes "0 < n"
  shows "Min (set (map (\<lambda>k. f0 + int k) [a..<a + n])) = f0 + int a"
  using assms by (intro Min_eqI) auto

lemma Max_consecutive:
  assumes "0 < n"
  shows "Max (set (map (\<lambda>k. f0 + int k) [a..<a + n])) = f0 + int a + int n - 1"
proof (intro Max_eqI)
  show "f0 + int a + int n - 1 \<in> set (map (\<lambda>k. f0 + int k) [a..<a + n])"
  proof -
    have "a + n - 1 \<in> set [a..<a + n]" using assms by auto
    moreover have "f0 + int (a + n - 1) = f0 + int a + int n - 1" using assms by auto
    ultimately show ?thesis by (metis (mono_tags, lifting) image_eqI set_map)
  qed
qed auto

lemma single_run_short:
  assumes "length frames = length (pre @ run @ post)"
      and "run \<noteq> []" and "length run < 6"
      and "\<forall>v\<in>set pre. \<not> fillna 0 v \<ge> th"
      and "\<forall>v\<in>set run. fillna 0 v \<ge> th"
      and "\<forall>v\<in>set post. \<not> fillna 0 v \<ge> th"
  shows "candidates_of_track m p fps th frames (pre @ run @ post) = []"
proof -
  obtain k where g: "sprint_groups (annotate th frames (pre @ run @ post))
           = [rows_of (take (length run) (drop (length pre) frames)) run
                (replicate (length run) True) (replicate (length run) k)]"
    using single_run_group[OF assms(1,2,4,5,6)] by blast
  have "length (rows_of (take (length run) (drop (length pre) frames)) run
                (replicate (length run) True) (replicate (length run) k)) = length run"
    using assms(1) by (intro length_rows_of) simp_all
  then show ?thesis using assms(3)
    by (simp add: candidates_of_track_def g candidate_of_group_def)
qed

lemma single_run_long:
  assumes fr: "frames = map (\<lambda>k. f0 + int k) [0..<length (pre @ run @ post)]"
      and n6: "6 \<le> length run" and fps: "fps \<noteq> 0"
      and pre: "\<forall>v\<in>set pre. \<not> fillna 0 v \<ge> th"
      and run: "\<forall>v\<in>set run. fillna 0 v \<ge> th"
      and post: "\<forall>v\<in>set post. \<not> fillna 0 v \<ge> th"
      and th: "0 < th"
  shows "\<exists>c. candidates_of_track m p fps th frames (pre @ run @ post) = [c]
           \<and> sp_frame_start c = f0 + int (length pre)
           \<and> sp_frame_end c = f0 + int (length pre) + int (length run) - 1
           \<and> sp_duration_s c = real (length run) / of_int fps"
proof -
  let ?a = "length pre" and ?n = "length run"
  let ?F2 = "map (\<lambda>k. f0 + int k) [?a..<?a + ?n]"
  have len: "length frames = length (pre @ run @ post)" using fr by simp
  have ne: "run \<noteq> []" and n0: "0 < ?n" using n6 by auto
  have F2: "take ?n (drop ?a frames) = ?F2"
    unfolding fr by (intro consecutive_frames_slice) simp
  obtain k where g: "sprint_groups (annotate th frames (pre @ run @ post))
           = [rows_of ?F2 run (replicate ?n True) (replicate ?n k)]"
    using single_run_group[OF len ne pre run post] F2 by auto
  let ?g = "rows_of ?F2 run (replicate ?n True) (replicate ?n k)"
  have lg: "length ?g = ?n" by (intro length_rows_of) simp_all
  have fg: "map pr_frame ?g = ?F2" by (intro rows_of_columns(1)[where n = ?n]) simp_all
  have vg: "map speed_smooth ?g = run" by (intro rows_of_columns(2)[where n = ?n]) simp_all
  have "\<forall>v\<in>set run. v \<noteq> None"
  proof
    fix v assume "v \<in> set run"
    then have "fillna 0 v \<ge> th" using run by blast
    then show "v \<noteq> None" using th by (cases v) (auto simp: fillna_def)
  qed
  then have ld: "length (dropna run) = ?n" by (rule dropna_all_present)
  then have dne: "dropna run \<noteq> []" using n0 by auto
  let ?fs = "f0 + int ?a" and ?fe = "f0 + int ?a + int ?n - 1"
  let ?c = "\<lparr> sp_match_id = m, sp_player_id = p, sp_frame_start = ?fs, sp_frame_end = ?fe,
        sp_mid_frame = py_int (of_int (?fs + ?fe) / 2),
        sp_duration_s = of_int (?fe - ?fs + 1) / of_int fps,
        sp_distance_m = (mean (dropna run) / (36 / 10)) * (of_int (?fe - ?fs + 1) / of_int fps),
        sp_avg_sprint_speed_kmh = mean (dropna run),
        sp_max_sprint_speed_kmh = quantile (9 / 10) (dropna run) \<rparr>"
  have "candidate_of_group m p fps ?g = Inr (Some ?c)"
    using n6 fps ld dne
    by (simp add: candidate_of_group_def Let_def lg fg vg Min_consecutive[OF n0]
        Max_consecutive[OF n0] del: set_map set_upt)
  then have "candidates_of_track m p fps th frames (pre @ run @ post) = [?c]"
    by (simp add: candidates_of_track_def g)
  moreover have "sp_duration_s ?c = real ?n / of_int fps" by simp
  ultimately show ?thesis by (intro exI[of _ ?c]) simp
qed

lemma below_not_sprinting:
  "(case v of None \<Rightarrow> True | Some x \<Rightarrow> x < 245 / 10) \<Longrightarrow>
   \<not> fillna 0 v \<ge> SPRINT_THRESHOLD_KMH"
  by (cases v) (simp_all add: fillna_def SPRINT_THRESHOLD_KMH_def)

lemma above_sprinting:
  "(case v of None \<Rightarrow> False | Some x \<Rightarrow> x \<ge> 245 / 10) \<Longrightarrow>
   fillna 0 v \<ge> SPRINT_THRESHOLD_KMH"
  by (cases v) (simp_all add: fillna_def SPRINT_THRESHOLD_KMH_def)

text \<open>
  C6: the frames being numbered consecutively, a smoothed curve that is at or above
  24.5 km/h on one stretch of consecutive frames and below it or missing on every other
  frame gives, at 10 fps, exactly one candidate, of \<open>duration_s = 0.6\<close>, when the stretch
  has 6 frames, and no candidate when it has 5.
\<close>

theorem threshold_boundary_six_frames:
  assumes "frames = map (\<lambda>k. f0 + int k) [0..<length (pre @ run @ post)]"
      and "\<forall>v\<in>set pre \<union> set post. (case v of None \<Rightarrow> True | Some x \<Rightarrow> x < 245 / 10)"
      and "\<forall>v\<in>set run. (case v of None \<Rightarrow> False | Some x \<Rightarrow> x \<ge> 245 / 10)"
  shows "(length run = 6 \<longrightarrow>
            (\<exists>c. candidates_of_track match_id player_id TRACKING_FPS SPRINT_THRESHOLD_KMH
                    frames (pre @ run @ post) = [c]
                \<and> sp_duration_s c = 6 / 10
                \<and> sp_frame_start c = f0 + int (length pre)
                \<and> sp_frame_end c = f0 + int (length pre) + 5))
       \<and> (length run = 5 \<longrightarrow>
            candidates_of_track match_id player_id TRACKING_FPS SPRINT_THRESHOLD_KMH
              frames (pre @ run @ post) = [])"
proof -
  let ?th = "SPRINT_THRESHOLD_KMH"
  have pre: "\<forall>v\<in>set pre. \<not> fillna 0 v \<ge> ?th"
    using assms(2) below_not_sprinting by blast
  have post: "\<forall>v\<in>set post. \<not> fillna 0 v \<ge> ?th"
    using assms(2) below_not_sprinting by blast
  have run: "\<forall>v\<in>set run. fillna 0 v \<ge> ?th"
    using assms(3) above_sprinting by blast
  have th: "0 < ?th" by (simp add: SPRINT_THRESHOLD_KMH_def)
  have fps: "TRACKING_FPS \<noteq> 0" by (simp add: TRACKING_FPS_def)
  have len: "length frames = length (pre @ run @ post)" using assms(1) by simp
  have six: "\<exists>c. candidates_of_track match_id player_id TRACKING_FPS ?th
                    frames (pre @ run @ post) = [c]
                \<and> sp_duration_s c = 6 / 10
                \<and> sp_frame_start c = f0 + int (length pre)
                \<and> sp_frame_end c = f0 + int (length pre) + 5" if n: "length run = 6"
  proof -
    have n6: "6 \<le> length run" using n by simp
    obtain c where c: "candidates_of_track match_id player_id TRACKING_FPS ?th
                    frames (pre @ run @ post) = [c]"
       "sp_frame_start c = f0 + int (length pre)"
       "sp_frame_end c = f0 + int (length pre) + int (length run) - 1"
       "sp_duration_s c = real (length run) / of_int TRACKING_FPS"
      using single_run_long[OF assms(1) n6 fps pre run post th] by blast
    have "sp_duration_s c = 6 / 10" using c(4) n by (simp add: TRACKING_FPS_def)
    moreover have "sp_frame_end c = f0 + int (length pre) + 5" using c(3) n by simp
    ultimately show ?thesis using c(1,2) by blast
  qed
  have five: "candidates_of_track match_id player_id TRACKING_FPS ?th
              frames (pre @ run @ post) = []" if n: "length run = 5"
  proof -
    have "run \<noteq> []" "length run < 6" using n by auto
    then show ?thesis using single_run_short[OF len _ _ pre run post] by blast
  qed
  show ?thesis using six five by blast
qed

theorem threshold_boundary_six_frames_witness:
  "(\<exists>c. candidates_of_track (PInt 1) 7 TRACKING_FPS SPRINT_THRESHOLD_KMH
          (map (\<lambda>k. 100 + int k) [0..<length (ex_curve 6)]) (ex_curve 6) = [c]
        \<and> sp_duration_s c = 6 / 10 \<and> sp_frame_start c = 103 \<and> sp_frame_end c = 108)
   \<and> candidates_of_track (PInt 1) 7 TRACKING_FPS SPRINT_THRESHOLD_KMH
          (map (\<lambda>k. 100 + int k) [0..<length (ex_curve 5)]) (ex_curve 5) = []"
proof -
  let ?pre = "[Some 0, None, Some (0::real)]"
  let ?post = "[Some 0, Some (0::real)]"
  let ?run6 = "replicate 6 (Some (245 / 10 :: real))"
  let ?run5 = "replicate 5 (Some (245 / 10 :: real))"
  have out: "\<forall>v\<in>set ?pre \<union> set ?post. (case v of None \<Rightarrow> True | Some x \<Rightarrow> x < 245 / 10)"
    by simp
  have in6: "\<forall>v\<in>set ?run6. (case v of None \<Rightarrow> False | Some x \<Rightarrow> x \<ge> 245 / 10)"
    by simp
  have in5: "\<forall>v\<in>set ?run5. (case v of None \<Rightarrow> False | Some x \<Rightarrow> x \<ge> 245 / 10)"
    by simp
  have l6: "length ?run6 = 6" and l5: "length ?run5 = 5" by simp_all
  note t6 = threshold_boundary_six_frames[OF refl out in6, of "PInt 1" 7 100,
      THEN conjunct1, THEN mp, OF l6]
  note t5 = threshold_boundary_six_frames[OF refl out in5, of "PInt 1" 7 100,
      THEN conjunct2, THEN mp, OF l5]
  from t6 obtain c where c:
    "candidates_of_track (PInt 1) 7 TRACKING_FPS SPRINT_THRESHOLD_KMH
       (map (\<lambda>k. 100 + int k) [0..<length (?pre @ ?run6 @ ?post)]) (?pre @ ?run6 @ ?post) = [c]"
    "sp_duration_s c = 6 / 10"
    "sp_frame_start c = 100 + int (length ?pre)"
    "sp_frame_end c = 100 + int (length ?pre) + 5"
    by blast
  have f: "sp_frame_start c = 103" "sp_frame_end c = 108" using c(3,4) by simp_all
  have a: "candidates_of_track (PInt 1) 7 TRACKING_FPS SPRINT_THRESHOLD_KMH
          (map (\<lambda>k. 100 + int k) [0..<length (ex_curve 6)]) (ex_curve 6) = [c]"
    using c(1) by (simp only: ex_curve_def)
  have b: "candidates_of_track (PInt 1) 7 TRACKING_FPS SPRINT_THRESHOLD_KMH
          (map (\<lambda>k. 100 + int k) [0..<length (ex_curve 5)]) (ex_curve 5) = []"
    using t5 by (simp only: ex_curve_def)
  show ?thesis using a b c(2) f by blast
qed

section \<open>Order of the sprints and their identifiers\<close>

lemma group_body_result:
  "group_body m p fps g acc = Inr out \<Longrightarrow> out = acc @ accepted_of_groups m p fps [g]"
  by (auto simp: group_body_def accepted_of_groups_def split: sum.splits option.splits if_splits)

lemma accepted_of_groups_Cons:
  "accepted_of_groups m p fps (g # gs)
     = accepted_of_groups m p fps [g] @ accepted_of_groups m p fps gs"
  by (simp add: accepted_of_groups_def)

lemma group_loop_result:
  "group_loop m p fps gs acc = Inr out \<Longrightarrow> out = acc @ accepted_of_groups m p fps gs"
proof (induction gs arbitrary: acc)
  case Nil
  then show ?case by (simp add: accepted_of_groups_def)
next
  case (Cons g gs)
  from Cons.prems obtain acc' where b: "group_body m p fps g acc = Inr acc'"
      and l: "group_loop m p fps gs acc' = Inr out"
    by (auto split: sum.splits)
  have "out = acc' @ accepted_of_groups m p fps gs" using Cons.IH[OF l] .
  moreover have "acc' = acc @ accepted_of_groups m p fps [g]" using group_body_result[OF b] .
  ultimately show ?case by (simp add: accepted_of_groups_Cons[of m p fps g gs])
qed

lemma player_body_result:
  "player_body m fps th pfs p acc = Inr out \<Longrightarrow> out = acc @ sprints_of_player m fps th pfs p"
  by (auto simp: player_body_def sprints_of_player_def player_pdf_def player_rows_def Let_def
      dest: group_loop_result split: if_splits)

lemma player_loop_result:
  "player_loop m fps th pfs ps acc = Inr out \<Longrightarrow>
   out = acc @ concat (map (sprints_of_player m fps th pfs) ps)"
proof (induction ps arbitrary: acc)
  case Nil
  then show ?case by simp
next
  case (Cons p ps)
  from Cons.prems obtain acc' where b: "player_body m fps th pfs p acc = Inr acc'"
      and l: "player_loop m fps th pfs ps acc' = Inr out"
    by (auto split: sum.splits)
  show ?case using Cons.IH[OF l] player_body_result[OF b] by simp
qed

lemma sorted_wrt_concat_map:
  assumes "sorted_wrt Q ks"
      and "\<And>k. k \<in> set ks \<Longrightarrow> sorted_wrt P (f k)"
      and "\<And>k1 k2 a b. k1 \<in> set ks \<Longrightarrow> k2 \<in> set ks \<Longrightarrow> Q k1 k2 \<Longrightarrow>
             a \<in> set (f k1) \<Longrightarrow> b \<in> set (f k2) \<Longrightarrow> P a b"
  shows "sorted_wrt P (concat (map f ks))"
  using assms
proof (induction ks)
  case Nil
  then show ?case by simp
next
  case (Cons k ks)
  have "sorted_wrt P (concat (map f ks))"
  proof (rule Cons.IH)
    show "sorted_wrt Q ks" using Cons.prems(1) by simp
  next
    fix k' assume "k' \<in> set ks"
    then show "sorted_wrt P (f k')" using Cons.prems(2) by simp
  next
    fix k1 k2 a b
    assume "k1 \<in> set ks" "k2 \<in> set ks" "Q k1 k2" "a \<in> set (f k1)" "b \<in> set (f k2)"
    then show "P a b" using Cons.prems(3)[of k1 k2 a b] by simp
  qed
  moreover have "sorted_wrt P (f k)" using Cons.prems(2) by simp
  moreover have "\<forall>a\<in>set (f k). \<forall>b\<in>set (concat (map f ks)). P a b"
  proof (intro ballI)
    fix a b assume a: "a \<in> set (f k)" and b: "b \<in> set (concat (map f ks))"
    from b obtain k2 where k2: "k2 \<in> set ks" "b \<in> set (f k2)" by auto
    have "Q k k2" using Cons.prems(1) k2(1) by simp
    then show "P a b" using Cons.prems(3)[of k k2 a b] a k2 by simp
  qed
  ultimately show ?case by (simp add: sorted_wrt_append)
qed

lemma cumsum_ge: "g \<in> set (cumsum acc cs) \<Longrightarrow> acc \<le> g"
proof (induction cs arbitrary: acc)
  case Nil
  then show ?case by simp
next
  case (Cons c cs)
  let ?a = "acc + (if c then 1 else 0)"
  from Cons.prems have "g = ?a \<or> g \<in> set (cumsum ?a cs)" by simp
  then show ?case
  proof
    assume "g = ?a" then show ?thesis by simp
  next
    assume "g \<in> set (cumsum ?a cs)"
    then have "?a \<le> g" by (rule Cons.IH)
    then show ?thesis by (simp split: if_splits)
  qed
qed

lemma sorted_cumsum: "sorted (cumsum acc cs)"
proof (induction cs arbitrary: acc)
  case Nil
  then show ?case by simp
next
  case (Cons c cs)
  show ?case using Cons.IH cumsum_ge by (simp del: cumsum.simps add: cumsum.simps(2)[of acc c cs])
qed

lemma cross_order:
  assumes k: "sorted (map key rows)" and f: "sorted (map frame rows)"
      and r: "r1 \<in> set rows" "r2 \<in> set rows" and lt: "(key r1 :: nat) < key r2"
  shows "(frame r1 :: int) \<le> frame r2"
proof -
  obtain i j where i: "i < length rows" "rows ! i = r1" and j: "j < length rows" "rows ! j = r2"
    using r by (auto simp: in_set_conv_nth)
  have "\<not> j \<le> i"
  proof
    assume "j \<le> i"
    then have "map key rows ! j \<le> map key rows ! i"
      using k i(1) by (intro sorted_nth_mono) simp_all
    then show False using i j lt by simp
  qed
  then have "i \<le> j" by simp
  then have "map frame rows ! i \<le> map frame rows ! j"
    using f j(1) by (intro sorted_nth_mono) simp_all
  then show ?thesis using i j by simp
qed

lemma candidate_start:
  assumes "candidate_of_group m p fps g = Inr (Some c)"
  shows "sp_player_id c = p" and "g \<noteq> []" and "sp_frame_start c = Min (set (map pr_frame g))"
  using assms by (auto simp: candidate_of_group_def Let_def split: if_splits)

lemma accepted_of_groups_map:
  "accepted_of_groups m p fps (map G ks)
     = concat (map (\<lambda>k. accepted_of_groups m p fps [G k]) ks)"
  by (induction ks) (simp_all add: accepted_of_groups_def)

lemma accepted_single:
  assumes "c \<in> set (accepted_of_groups m p fps [g])"
  shows "candidate_of_group m p fps g = Inr (Some c)"
  using assms by (auto simp: accepted_of_groups_def split: sum.splits option.splits if_splits)

lemma accepted_single_sorted: "sorted_wrt P (accepted_of_groups m p fps [g])"
  by (auto simp: accepted_of_groups_def split: sum.splits option.splits)

lemma accepted_groupby_sorted:
  assumes k: "sorted (map sprint_group rows)" and f: "sorted (map pr_frame rows)"
  shows "sorted_wrt (\<lambda>a b. sp_frame_start a \<le> sp_frame_start b)
           (accepted_of_groups m p fps (groupby sprint_group rows))"
proof -
  let ?ks = "sort (remdups (map sprint_group rows))"
  let ?G = "\<lambda>k. filter (\<lambda>r. sprint_group r = k) rows"
  have ks: "sorted_wrt (<) ?ks"
    by (simp add: strict_sorted_iff)
  have "sorted_wrt (\<lambda>a b. sp_frame_start a \<le> sp_frame_start b)
          (concat (map (\<lambda>k. accepted_of_groups m p fps [?G k]) ?ks))"
  proof (rule sorted_wrt_concat_map[OF ks])
    fix k show "sorted_wrt (\<lambda>a b. sp_frame_start a \<le> sp_frame_start b)
                  (accepted_of_groups m p fps [?G k])"
      by (rule accepted_single_sorted)
  next
    fix k1 k2 a b
    assume lt: "k1 < k2" and a: "a \<in> set (accepted_of_groups m p fps [?G k1])"
      and b: "b \<in> set (accepted_of_groups m p fps [?G k2])"
    note ca = candidate_start[OF accepted_single[OF a]]
    note cb = candidate_start[OF accepted_single[OF b]]
    obtain r0 where "r0 \<in> set (?G k2)" using cb(2) by (cases "?G k2") auto
    then have "set (map pr_frame (?G k2)) \<noteq> {}" by auto
    then have "Min (set (map pr_frame (?G k2))) \<in> set (map pr_frame (?G k2))"
      by (intro Min_in) simp_all
    then obtain r2 where r2: "r2 \<in> set (?G k2)" "pr_frame r2 = Min (set (map pr_frame (?G k2)))"
      by auto
    obtain r1 where r1: "r1 \<in> set (?G k1)" using ca(2) by (cases "?G k1") auto
    have "Min (set (map pr_frame (?G k1))) \<le> pr_frame r1"
      using r1 by (intro Min_le) auto
    moreover have "pr_frame r1 \<le> pr_frame r2"
    proof (rule cross_order[OF k f])
      show "r1 \<in> set rows" "r2 \<in> set rows" using r1 r2(1) by auto
      show "sprint_group r1 < sprint_group r2" using r1 r2(1) lt by auto
    qed
    ultimately show "sp_frame_start a \<le> sp_frame_start b"
      using ca(3) cb(3) r2(2) by simp
  qed
  then show ?thesis by (simp add: groupby_def accepted_of_groups_map)
qed

lemma length_diff_from [simp]: "length (diff_from prev xs) = length xs"
  by (induction xs arbitrary: prev) simp_all

lemma length_calculate_distances [simp]:
  "length (calculate_distances pdf) = length pdf"
  by (simp add: calculate_distances_def diff_def Let_def)

lemma length_rolling [simp]: "length (rolling w stat xs) = length xs"
  by (simp add: rolling_def)

lemma length_speeds_smooth [simp]: "length (speeds_smooth fps ds) = length ds"
  by (simp add: speeds_smooth_def Let_def)

lemma player_rows_columns:
  "map pr_frame (player_rows fps th pdf) = map pf_frame pdf"
  "sorted (map sprint_group (player_rows fps th pdf))"
proof -
  let ?smooth = "speeds_smooth fps (calculate_distances pdf)"
  let ?flags = "sprint_flags th ?smooth"
  let ?groups = "cumsum 0 (changes None ?flags)"
  have r: "player_rows fps th pdf = rows_of (map pf_frame pdf) ?smooth ?flags ?groups"
    by (simp add: player_rows_def annotate_rows_of)
  have l: "length (map pf_frame pdf) = length pdf" "length ?smooth = length pdf"
      "length ?flags = length pdf" "length ?groups = length pdf"
    by (simp_all add: sprint_flags_def)
  show "map pr_frame (player_rows fps th pdf) = map pf_frame pdf"
    unfolding r by (rule rows_of_columns(1)[OF l])
  have "map sprint_group (player_rows fps th pdf) = ?groups"
    unfolding r by (rule rows_of_columns(4)[OF l])
  then show "sorted (map sprint_group (player_rows fps th pdf))"
    by (simp add: sorted_cumsum)
qed

lemma key_le_same_player:
  assumes "pf_player_id a = Some p" "pf_player_id b = Some p"
      and "sort_values_key a \<le> sort_values_key b"
  shows "pf_frame a \<le> pf_frame b"
  using assms by (auto simp: sort_values_key_def less_eq_prod_def)

lemma key_le_players:
  assumes "pf_player_id a = Some p" "pf_player_id b = Some q"
      and "sort_values_key a \<le> sort_values_key b"
  shows "p \<le> q"
  using assms by (auto simp: sort_values_key_def less_eq_prod_def)

lemma player_pdf_sorted:
  assumes "sorted (map sort_values_key pfs)"
  shows "sorted (map pf_frame (player_pdf pfs p))"
proof -
  have "sorted_wrt (\<lambda>a b. sort_values_key a \<le> sort_values_key b) pfs"
    using assms by (simp add: sorted_map)
  then have "sorted_wrt (\<lambda>a b. sort_values_key a \<le> sort_values_key b) (player_pdf pfs p)"
    unfolding player_pdf_def by (rule sorted_wrt_filter)
  then have "sorted_wrt (\<lambda>a b. pf_frame a \<le> pf_frame b) (player_pdf pfs p)"
  proof (rule sorted_wrt_mono_rel[rotated])
    fix a b assume "a \<in> set (player_pdf pfs p)" "b \<in> set (player_pdf pfs p)"
      "sort_values_key a \<le> sort_values_key b"
    then show "pf_frame a \<le> pf_frame b"
      using key_le_same_player[of a p b] by (simp add: player_pdf_def)
  qed
  then show ?thesis by (simp add: sorted_map)
qed

lemma sprints_of_player_sorted:
  assumes "sorted (map sort_values_key pfs)"
  shows "sorted_wrt (\<lambda>a b. sp_frame_start a \<le> sp_frame_start b)
           (sprints_of_player m fps th pfs p)"
proof (cases "length (player_pdf pfs p) < smooth_window")
  case True
  then show ?thesis by (simp add: sprints_of_player_def)
next
  case False
  let ?rows = "player_rows fps th (player_pdf pfs p)"
  have "sorted (map sprint_group (filter is_sprinting ?rows))"
    using player_rows_columns(2)[of fps th "player_pdf pfs p"] by (rule sorted_filter)
  moreover have "sorted (map pr_frame (filter is_sprinting ?rows))"
    using player_pdf_sorted[OF assms, of p] player_rows_columns(1)[of fps th "player_pdf pfs p"]
    by (intro sorted_filter) simp
  ultimately show ?thesis using False
    by (simp add: sprints_of_player_def sprint_groups_def accepted_groupby_sorted)
qed

lemma accepted_player_id:
  assumes "c \<in> set (accepted_of_groups m p fps gs)"
  shows "sp_player_id c = p"
proof -
  from assms obtain g where "g \<in> set gs" "c \<in> set (accepted_of_groups m p fps [g])"
    by (auto simp: accepted_of_groups_def)
  then show ?thesis using candidate_start(1)[OF accepted_single] by blast
qed

lemma sprints_of_player_id:
  "c \<in> set (sprints_of_player m fps th pfs p) \<Longrightarrow> sp_player_id c = p"
  by (auto simp: sprints_of_player_def dest: accepted_player_id split: if_splits)

lemma set_unique [simp]: "set (unique xs) = set xs"
  by (induction xs rule: unique.induct) auto

lemma unique_strictly_sorted:
  "sorted xs \<Longrightarrow> sorted_wrt (<) (unique (xs :: int list))"
proof (induction xs rule: unique.induct)
  case 1
  then show ?case by simp
next
  case (2 x xs)
  have "sorted (map (\<lambda>y. y) (filter (\<lambda>y. y \<noteq> x) xs))"
    using "2.prems" by (intro sorted_filter) simp
  then have "sorted (filter (\<lambda>y. y \<noteq> x) xs)" by simp
  then have "sorted_wrt (<) (unique (filter (\<lambda>y. y \<noteq> x) xs))" by (rule "2.IH")
  moreover have "\<forall>y\<in>set (filter (\<lambda>y. y \<noteq> x) xs). x < y" using "2.prems" by auto
  ultimately show ?case by simp
qed

lemma player_ids_sorted:
  assumes "sorted (map sort_values_key pfs)"
  shows "sorted (concat (map (\<lambda>r. case pf_player_id r of None \<Rightarrow> [] | Some p \<Rightarrow> [p]) pfs))"
  using assms
proof (induction pfs)
  case Nil
  then show ?case by simp
next
  case (Cons r rs)
  have IH: "sorted (concat (map (\<lambda>r. case pf_player_id r of None \<Rightarrow> [] | Some p \<Rightarrow> [p]) rs))"
    using Cons by simp
  show ?case
  proof (cases "pf_player_id r")
    case None
    then show ?thesis using IH by simp
  next
    case (Some p)
    have "\<forall>q\<in>set (concat (map (\<lambda>r. case pf_player_id r of None \<Rightarrow> [] | Some p \<Rightarrow> [p]) rs)). p \<le> q"
    proof
      fix q assume "q \<in> set (concat (map (\<lambda>r. case pf_player_id r of None \<Rightarrow> [] | Some p \<Rightarrow> [p]) rs))"
      then obtain r' where r': "r' \<in> set rs" "pf_player_id r' = Some q"
        by (auto split: option.splits)
      have "sort_values_key r \<le> sort_values_key r'" using Cons.prems r'(1) by auto
      then show "p \<le> q" using key_le_players[OF Some r'(2)] by simp
    qed
    then show ?thesis using IH Some by simp
  qed
qed

lemma assign_sprint_id_length [simp]: "length (assign_sprint_id cs) = length cs"
  by (simp add: assign_sprint_id_def)

lemma assign_sprint_id_nth:
  assumes "i < length cs"
  shows "sp_sprint_id (assign_sprint_id cs ! i) = i"
    and "sp_player_id (assign_sprint_id cs ! i) = sp_player_id (cs ! i)"
    and "sp_frame_start (assign_sprint_id cs ! i) = sp_frame_start (cs ! i)"
  using assms by (simp_all add: assign_sprint_id_def sprint_candidate.defs sprint.defs)

lemma assign_sprint_id_ids: "map sp_sprint_id (assign_sprint_id cs) = [0..<length cs]"
  by (rule nth_equalityI) (simp_all add: assign_sprint_id_nth(1))

lemma assign_sprint_id_order:
  assumes "sorted_wrt player_then_frame cs"
  shows "sorted_wrt player_then_frame (assign_sprint_id cs)"
proof -
  have "player_then_frame (assign_sprint_id cs ! i) (assign_sprint_id cs ! j)"
    if "i < j" "j < length cs" for i j
  proof -
    have "player_then_frame (cs ! i) (cs ! j)"
      using assms that by (simp add: sorted_wrt_iff_nth_less)
    then show ?thesis using that
      by (simp add: player_then_frame_def assign_sprint_id_nth)
  qed
  then show ?thesis by (simp add: sorted_wrt_iff_nth_less)
qed

lemma all_sprints_ordered:
  assumes "sorted (map sort_values_key pfs)" and "sorted_wrt (<) players"
  shows "sorted_wrt player_then_frame (concat (map (sprints_of_player m fps th pfs) players))"
proof (rule sorted_wrt_concat_map[OF assms(2)])
  fix p
  have "sorted_wrt (\<lambda>a b. sp_frame_start a \<le> sp_frame_start b) (sprints_of_player m fps th pfs p)"
    using assms(1) by (rule sprints_of_player_sorted)
  then show "sorted_wrt player_then_frame (sprints_of_player m fps th pfs p)"
  proof (rule sorted_wrt_mono_rel[rotated])
    fix a b
    assume "a \<in> set (sprints_of_player m fps th pfs p)"
      "b \<in> set (sprints_of_player m fps th pfs p)" "sp_frame_start a \<le> sp_frame_start b"
    then show "player_then_frame a b"
      using sprints_of_player_id[of a m fps th pfs p] sprints_of_player_id[of b m fps th pfs p]
      by (simp add: player_then_frame_def)
  qed
next
  fix p q a b
  assume "p < q" "a \<in> set (sprints_of_player m fps th pfs p)"
    "b \<in> set (sprints_of_player m fps th pfs q)"
  then show "player_then_frame a b"
    using sprints_of_player_id[of a m fps th pfs p] sprints_of_player_id[of b m fps th pfs q]
    by (simp add: player_then_frame_def)
qed

lemma euclid_zero: "euclid a 0 = \<bar>a\<bar>"
  by (simp add: euclid_def)

lemma ex_explode_nonempty: "explode_player_tracking ex_tracking \<noteq> []"
  by (simp add: explode_player_tracking_def explode_row_def ex_tracking_def ex_entry_def upt_eval)

lemma ex_sort_values:
  "sort_key sort_values_key (explode_player_tracking ex_tracking) = ex_sorted_frames"
  by code_simp

lemma ex_players:
  "unique (concat (map (\<lambda>r. case pf_player_id r of None \<Rightarrow> [] | Some p \<Rightarrow> [p])
                       ex_sorted_frames)) = [4, 9]"
  by code_simp

lemma ex_pdf:
  "filter (\<lambda>r. pf_player_id r = Some 4) ex_sorted_frames = ex_player_frames 4"
  "filter (\<lambda>r. pf_player_id r = Some 9) ex_sorted_frames = ex_player_frames 9"
  by code_simp+

lemma ex_calculate_distances:
  "calculate_distances (ex_player_frames p) = ex_distances"
  by (simp add: calculate_distances_def ex_player_frames_def upt_eval diff_def sub_opt_def
      euclid_opt_def euclid_zero Let_def eval_nat_numeral ex_distances_def)

lemma ex_group_loop:
  "group_loop (PInt 1) 4 TRACKING_FPS
     (sprint_groups (annotate SPRINT_THRESHOLD_KMH (map pf_frame (ex_player_frames 4))
        (speeds_smooth TRACKING_FPS ex_distances))) []
     = Inr [ex_detected 4]"
  "group_loop (PInt 1) 9 TRACKING_FPS
     (sprint_groups (annotate SPRINT_THRESHOLD_KMH (map pf_frame (ex_player_frames 9))
        (speeds_smooth TRACKING_FPS ex_distances))) [ex_detected 4]
     = Inr [ex_detected 4, ex_detected 9]"
  by code_simp+

lemma ex_length: "length (ex_player_frames p) = 11"
  by (simp add: ex_player_frames_def)

lemma ex_detect_sprints:
  "detect_sprints ex_tracking (PInt 1) TRACKING_FPS SPRINT_THRESHOLD_KMH
     = Inr (assign_sprint_id [ex_detected 4, ex_detected 9])"
  by (simp add: detect_sprints_def Let_def ex_explode_nonempty ex_sort_values ex_players
      player_body_def ex_pdf ex_length smooth_window_def ex_calculate_distances ex_group_loop)

lemma cross_order_strict:
  assumes k: "sorted (map key rows)" and f: "sorted_wrt (<) (map frame rows)"
      and r: "r1 \<in> set rows" "r2 \<in> set rows" and lt: "(key r1 :: nat) < key r2"
  shows "(frame r1 :: int) < frame r2"
proof -
  obtain i j where i: "i < length rows" "rows ! i = r1" and j: "j < length rows" "rows ! j = r2"
    using r by (auto simp: in_set_conv_nth)
  have "\<not> j \<le> i"
  proof
    assume "j \<le> i"
    then have "map key rows ! j \<le> map key rows ! i"
      using k i(1) by (intro sorted_nth_mono) simp_all
    then show False using i j lt by simp
  qed
  then have "i < j" by simp
  then have "map frame rows ! i < map frame rows ! j"
    using f j(1) by (intro sorted_wrt_nth_less) simp_all
  then show ?thesis using i j by simp
qed

lemma accepted_groupby_strict:
  assumes k: "sorted (map sprint_group rows)" and f: "sorted_wrt (<) (map pr_frame rows)"
  shows "sorted_wrt (\<lambda>a b. sp_frame_start a < sp_frame_start b)
           (accepted_of_groups m p fps (groupby sprint_group rows))"
proof -
  let ?ks = "sort (remdups (map sprint_group rows))"
  let ?G = "\<lambda>k. filter (\<lambda>r. sprint_group r = k) rows"
  have ks: "sorted_wrt (<) ?ks"
    by (simp add: strict_sorted_iff)
  have "sorted_wrt (\<lambda>a b. sp_frame_start a < sp_frame_start b)
          (concat (map (\<lambda>k. accepted_of_groups m p fps [?G k]) ?ks))"
  proof (rule sorted_wrt_concat_map[OF ks])
    fix k show "sorted_wrt (\<lambda>a b. sp_frame_start a < sp_frame_start b)
                  (accepted_of_groups m p fps [?G k])"
      by (rule accepted_single_sorted)
  next
    fix k1 k2 a b
    assume lt: "k1 < k2" and a: "a \<in> set (accepted_of_groups m p fps [?G k1])"
      and b: "b \<in> set (accepted_of_groups m p fps [?G k2])"
    note ca = candidate_start[OF accepted_single[OF a]]
    note cb = candidate_start[OF accepted_single[OF b]]
    obtain r0 where "r0 \<in> set (?G k2)" using cb(2) by (cases "?G k2") auto
    then have "set (map pr_frame (?G k2)) \<noteq> {}" by auto
    then have "Min (set (map pr_frame (?G k2))) \<in> set (map pr_frame (?G k2))"
      by (intro Min_in) simp_all
    then obtain r2 where r2: "r2 \<in> set (?G k2)" "pr_frame r2 = Min (set (map pr_frame (?G k2)))"
      by auto
    obtain r1 where r1: "r1 \<in> set (?G k1)" using ca(2) by (cases "?G k1") auto
    have "Min (set (map pr_frame (?G k1))) \<le> pr_frame r1"
      using r1 by (intro Min_le) auto
    moreover have "pr_frame r1 < pr_frame r2"
    proof (rule cross_order_strict[OF k f])
      show "r1 \<in> set rows" "r2 \<in> set rows" using r1 r2(1) by auto
      show "sprint_group r1 < sprint_group r2" using r1 r2(1) lt by auto
    qed
    ultimately show "sp_frame_start a < sp_frame_start b"
      using ca(3) cb(3) r2(2) by simp
  qed
  then show ?thesis by (simp add: groupby_def accepted_of_groups_map)
qed

lemma sprints_of_player_strict:
  assumes "sorted (map sort_values_key pfs)" and "distinct (map pf_frame (player_pdf pfs p))"
  shows "sorted_wrt (\<lambda>a b. sp_frame_start a < sp_frame_start b)
           (sprints_of_player m fps th pfs p)"
proof (cases "length (player_pdf pfs p) < smooth_window")
  case True
  then show ?thesis by (simp add: sprints_of_player_def)
next
  case False
  let ?rows = "player_rows fps th (player_pdf pfs p)"
  have "sorted (map sprint_group (filter is_sprinting ?rows))"
    using player_rows_columns(2)[of fps th "player_pdf pfs p"] by (rule sorted_filter)
  moreover have "sorted_wrt (<) (map pr_frame (filter is_sprinting ?rows))"
  proof -
    have "sorted_wrt (<) (map pf_frame (player_pdf pfs p))"
      using player_pdf_sorted[OF assms(1), of p] assms(2) by (simp add: strict_sorted_iff)
    then have "sorted_wrt (<) (map pr_frame ?rows)"
      by (simp add: player_rows_columns(1))
    then have "sorted_wrt (\<lambda>a b. pr_frame a < pr_frame b) ?rows"
      by (simp add: sorted_wrt_map)
    then have "sorted_wrt (\<lambda>a b. pr_frame a < pr_frame b) (filter is_sprinting ?rows)"
      by (rule sorted_wrt_filter)
    then show ?thesis by (simp add: sorted_wrt_map)
  qed
  ultimately show ?thesis using False
    by (simp add: sprints_of_player_def sprint_groups_def accepted_groupby_strict)
qed

lemma all_sprints_strictly_ordered:
  assumes "sorted (map sort_values_key pfs)" and "sorted_wrt (<) players"
      and "frames_distinct pfs"
  shows "sorted_wrt player_then_frame_strict
           (concat (map (sprints_of_player m fps th pfs) players))"
proof (rule sorted_wrt_concat_map[OF assms(2)])
  fix p
  have "distinct (map pf_frame (player_pdf pfs p))"
    using assms(3) by (simp add: frames_distinct_def)
  then have "sorted_wrt (\<lambda>a b. sp_frame_start a < sp_frame_start b) (sprints_of_player m fps th pfs p)"
    using assms(1) by (intro sprints_of_player_strict)
  then show "sorted_wrt player_then_frame_strict (sprints_of_player m fps th pfs p)"
  proof (rule sorted_wrt_mono_rel[rotated])
    fix a b
    assume "a \<in> set (sprints_of_player m fps th pfs p)"
      "b \<in> set (sprints_of_player m fps th pfs p)" "sp_frame_start a < sp_frame_start b"
    then show "player_then_frame_strict a b"
      using sprints_of_player_id[of a m fps th pfs p] sprints_of_player_id[of b m fps th pfs p]
      by (simp add: player_then_frame_strict_def)
  qed
next
  fix p q a b
  assume "p < q" "a \<in> set (sprints_of_player m fps th pfs p)"
    "b \<in> set (sprints_of_player m fps th pfs q)"
  then show "player_then_frame_strict a b"
    using sprints_of_player_id[of a m fps th pfs p] sprints_of_player_id[of b m fps th pfs q]
    by (simp add: player_then_frame_strict_def)
qed

lemma assign_sprint_id_strict_order:
  assumes "sorted_wrt player_then_frame_strict cs"
  shows "sorted_wrt player_then_frame_strict (assign_sprint_id cs)"
proof -
  have "player_then_frame_strict (assign_sprint_id cs ! i) (assign_sprint_id cs ! j)"
    if "i < j" "j < length cs" for i j
  proof -
    have "player_then_frame_strict (cs ! i) (cs ! j)"
      using assms that by (simp add: sorted_wrt_iff_nth_less)
    then show ?thesis using that
      by (simp add: player_then_frame_strict_def assign_sprint_id_nth)
  qed
  then show ?thesis by (simp add: sorted_wrt_iff_nth_less)
qed

lemma frames_distinct_sort_key:
  assumes "frames_distinct pfs"
  shows "frames_distinct (sort_key f pfs)"
proof -
  have "distinct (map pf_frame (player_pdf (sort_key f pfs) p))
          = distinct (map pf_frame (player_pdf pfs p))" for p
    by (simp add: player_pdf_def filter_sort distinct_map)
  then show ?thesis using assms by (simp add: frames_distinct_def)
qed

lemma detect_sprints_players:
  assumes "detect_sprints tracking_df m fps th = Inr sprints_df"
  shows "\<exists>players. sorted_wrt (<) players
           \<and> sprints_df = assign_sprint_id
               (concat (map (sprints_of_player m fps th
                               (sort_key sort_values_key (explode_player_tracking tracking_df)))
                            players))"
proof -
  let ?pfs = "sort_key sort_values_key (explode_player_tracking tracking_df)"
  let ?players = "unique (concat (map (\<lambda>r. case pf_player_id r of None \<Rightarrow> [] | Some p \<Rightarrow> [p]) ?pfs))"
  from assms obtain cs where l: "player_loop m fps th ?pfs ?players [] = Inr cs"
      and o: "sprints_df = assign_sprint_id cs"
    by (auto simp: detect_sprints_def Let_def split: if_splits sum.splits)
  have s: "sorted (map sort_values_key ?pfs)" by simp
  have "sorted_wrt (<) ?players"
    by (intro unique_strictly_sorted player_ids_sorted s)
  moreover have "cs = concat (map (sprints_of_player m fps th ?pfs) ?players)"
    using player_loop_result[OF l] by simp
  ultimately show ?thesis using o by blast
qed

text \<open>
  C7: the \<open>sprint_id\<close> values of the sprints that \<open>detect_sprints\<close> returns are
  \<open>0, 1, ..., n - 1\<close> in the order of the rows, hence unique, and the rows are in ascending
  order of \<open>player_id\<close> and, within one player, of \<open>frame_start\<close>; the order within a player
  is strict when no player has two rows of the same frame.
\<close>

theorem sprint_ids_sequential_by_player_then_frame:
  assumes "detect_sprints tracking_df match_id fps threshold_kmh = Inr sprints_df"
  shows "map sp_sprint_id sprints_df = [0..<length sprints_df]
       \<and> distinct (map sp_sprint_id sprints_df)
       \<and> sorted_wrt player_then_frame sprints_df
       \<and> (frames_distinct (explode_player_tracking tracking_df) \<longrightarrow>
            sorted_wrt player_then_frame_strict sprints_df)"
proof -
  let ?pfs = "sort_key sort_values_key (explode_player_tracking tracking_df)"
  obtain players where s: "sorted_wrt (<) players"
      and o: "sprints_df
                = assign_sprint_id (concat (map (sprints_of_player match_id fps threshold_kmh ?pfs) players))"
    using detect_sprints_players[OF assms] by blast
  have k: "sorted (map sort_values_key ?pfs)" by simp
  have ids: "map sp_sprint_id sprints_df = [0..<length sprints_df]"
    by (simp add: o assign_sprint_id_ids)
  then have "distinct (map sp_sprint_id sprints_df)" by simp
  moreover have "sorted_wrt player_then_frame sprints_df"
    unfolding o by (intro assign_sprint_id_order all_sprints_ordered s k)
  moreover have "sorted_wrt player_then_frame_strict sprints_df"
    if "frames_distinct (explode_player_tracking tracking_df)"
    unfolding o
    by (intro assign_sprint_id_strict_order all_sprints_strictly_ordered s k
        frames_distinct_sort_key that)
  ultimately show ?thesis using ids by blast
qed

theorem sprint_ids_sequential_by_player_then_frame_witness:
  "detect_sprints ex_tracking (PInt 1) TRACKING_FPS SPRINT_THRESHOLD_KMH
     = Inr (assign_sprint_id [ex_detected 4, ex_detected 9])
   \<and> frames_distinct (explode_player_tracking ex_tracking)
   \<and> map sp_sprint_id (assign_sprint_id [ex_detected 4, ex_detected 9]) = [0, 1]
   \<and> map sp_player_id (assign_sprint_id [ex_detected 4, ex_detected 9]) = [4, 9]
   \<and> sorted_wrt player_then_frame (assign_sprint_id [ex_detected 4, ex_detected 9])
   \<and> sorted_wrt player_then_frame_strict (assign_sprint_id [ex_detected 4, ex_detected 9])"
proof -
  note t = sprint_ids_sequential_by_player_then_frame[OF ex_detect_sprints]
  have d: "frames_distinct (explode_player_tracking ex_tracking)"
    unfolding frames_distinct_def
  proof
    fix p
    show "distinct (map pf_frame (player_pdf (explode_player_tracking ex_tracking) p))"
      by (simp add: player_pdf_def explode_player_tracking_def explode_row_def ex_tracking_def
          ex_entry_def upt_eval)
  qed
  have "map sp_sprint_id (assign_sprint_id [ex_detected 4, ex_detected 9]) = [0, 1]"
    using t[THEN conjunct1] by (simp add: upt_eval)
  moreover have "map sp_player_id (assign_sprint_id [ex_detected 4, ex_detected 9]) = [4, 9]"
    by (simp add: assign_sprint_id_def upt_eval ex_detected_def sprint_candidate.defs sprint.defs)
  moreover have "sorted_wrt player_then_frame (assign_sprint_id [ex_detected 4, ex_detected 9])"
    using t by blast
  moreover have "sorted_wrt player_then_frame_strict (assign_sprint_id [ex_detected 4, ex_detected 9])"
    using t d by blast
  ultimately show ?thesis using ex_detect_sprints d by blast
qed

end
